theory Spec2Isabelle
  imports Complex_Main "HOL-Library.Word"
begin

section \<open>Data model\<close>

text \<open>
  The chroma-key background remover of \<^verbatim>\<open>scripts/generate_isometric_assets.py\<close> works on
  an RGBA bitmap: a grid of \<open>width \<times> height\<close> pixels, each with four 8-bit channels. The
  function receives the bytes of an image file and returns the bytes of a PNG file; decoding
  and encoding are the imaging library's work.

  Coordinates and the derived quantities are Python integers, hence \<open>int\<close>; the channels
  stored in the bitmap are bytes.
\<close>

type_synonym channel = "8 word"
type_synonym pixel = "channel \<times> channel \<times> channel \<times> channel"
type_synonym rgb = "int \<times> int \<times> int"
type_synonym coord = "int \<times> int"

record image =
  width :: nat
  height :: nat
  pix :: "coord \<Rightarrow> pixel"


text \<open>
  The exceptions: those the function's own statements can raise, an index out of range and
  a division by zero, and those of the imaging library, which does not identify a file
  (\<^verbatim>\<open>UnidentifiedImageError\<close>) or cannot write one (\<^verbatim>\<open>OSError\<close>).
\<close>

datatype error = IndexError | ZeroDivisionError | UnidentifiedImageError | OSError


text \<open>
  Pixel access \<^verbatim>\<open>pixels[x, y]\<close>. An access outside the grid is an \<open>IndexError\<close>. (The
  imaging library also accepts negative indices counting from the far edge; the model
  reports those as errors as well, so that the absence of an error means that every access
  was inside the grid.)
\<close>

definition in_bounds :: "image \<Rightarrow> coord \<Rightarrow> bool" where
  "in_bounds img c =
     (case c of (x, y) \<Rightarrow> 0 \<le> x \<and> x < int (width img) \<and> 0 \<le> y \<and> y < int (height img))"

definition getpixel :: "image \<Rightarrow> coord \<Rightarrow> error + pixel" where
  "getpixel img c = (if in_bounds img c then Inr (pix img c) else Inl IndexError)"

definition putpixel :: "image \<Rightarrow> coord \<Rightarrow> pixel \<Rightarrow> error + image" where
  "putpixel img c v =
     (if in_bounds img c then Inr (img\<lparr>pix := (pix img)(c := v)\<rparr>) else Inl IndexError)"

section \<open>Control structure\<close>

text \<open>\<^verbatim>\<open>range(n)\<close>: the integers \<open>0, \<dots>, n - 1\<close>, none when \<open>n \<le> 0\<close>.\<close>

definition py_range :: "int \<Rightarrow> int list" where
  "py_range n = [0..n - 1]"

text \<open>A \<^verbatim>\<open>for\<close> loop over a list whose body may raise: the first error ends the loop.\<close>

fun for_each :: "'a list \<Rightarrow> ('a \<Rightarrow> 's \<Rightarrow> error + 's) \<Rightarrow> 's \<Rightarrow> error + 's" where
  "for_each [] body s = Inr s"
| "for_each (x # xs) body s =
     (case body x s of Inl e \<Rightarrow> Inl e | Inr s' \<Rightarrow> for_each xs body s')"

text \<open>Floor division \<^verbatim>\<open>a // b\<close> raises on a zero divisor.\<close>

definition floordiv :: "int \<Rightarrow> int \<Rightarrow> error + int" where
  "floordiv a b = (if b = 0 then Inl ZeroDivisionError else Inr (a div b))"

section \<open>Corner sampling and the background estimate\<close>

text \<open>
  \<^verbatim>\<open>color_distance\<close>: the Euclidean distance of two RGB triples. The source computes the
  square root in floating point; the model takes the real square root. The distance is only
  ever compared with the tolerance, an integer, and the squared distance is an integer too:
  it is at most the square of the tolerance or exceeds it by at least one, a gap far wider
  than the rounding of a square root of numbers below 200000.
\<close>

definition color_distance :: "rgb \<Rightarrow> rgb \<Rightarrow> real" where
  "color_distance c1 c2 =
     (case c1 of (r1, g1, b1) \<Rightarrow> case c2 of (r2, g2, b2) \<Rightarrow>
        sqrt (of_int ((r1 - r2)\<^sup>2 + (g1 - g2)\<^sup>2 + (b1 - b2)\<^sup>2)))"

text \<open>
  \<^verbatim>\<open>sample_corner_region\<close>: two nested loops over the offsets of a square window; a pixel
  is read only behind the bounds test.
\<close>

definition sample_corner_region :: "image \<Rightarrow> int \<Rightarrow> int \<Rightarrow> int \<Rightarrow> error + rgb list" where
  "sample_corner_region img start_x start_y sz =
     for_each (py_range sz) (\<lambda>dy colors.
       for_each (py_range sz) (\<lambda>dx colors.
         let x = start_x + dx; y = start_y + dy in
         if 0 \<le> x \<and> x < int (width img) \<and> 0 \<le> y \<and> y < int (height img)
         then (case getpixel img (x, y) of
                 Inl e \<Rightarrow> Inl e
               | Inr (r, g, b, a) \<Rightarrow> Inr (colors @ [(uint r, uint g, uint b)]))
         else Inr colors) colors) []"

definition corner_regions :: "image \<Rightarrow> int \<Rightarrow> coord list" where
  "corner_regions img sample_size =
     [(0, 0),
      (int (width img) - sample_size, 0),
      (0, int (height img) - sample_size),
      (int (width img) - sample_size, int (height img) - sample_size)]"

definition all_bg_colors :: "image \<Rightarrow> int \<Rightarrow> error + rgb list" where
  "all_bg_colors img sample_size =
     for_each (corner_regions img sample_size) (\<lambda>(cx, cy) acc.
       case sample_corner_region img cx cy sample_size of
         Inl e \<Rightarrow> Inl e
       | Inr cs \<Rightarrow> Inr (acc @ cs)) []"

text \<open>The average of the samples, channel by channel, with floor division.\<close>

definition average_color :: "rgb list \<Rightarrow> error + rgb" where
  "average_color cols =
     (case floordiv (sum_list (map (\<lambda>(r, g, b). r) cols)) (int (length cols)) of
        Inl e \<Rightarrow> Inl e
      | Inr avg_r \<Rightarrow>
     (case floordiv (sum_list (map (\<lambda>(r, g, b). g) cols)) (int (length cols)) of
        Inl e \<Rightarrow> Inl e
      | Inr avg_g \<Rightarrow>
     (case floordiv (sum_list (map (\<lambda>(r, g, b). b) cols)) (int (length cols)) of
        Inl e \<Rightarrow> Inl e
      | Inr avg_b \<Rightarrow> Inr (avg_r, avg_g, avg_b))))"

section \<open>Flood fill\<close>

text \<open>The seeds: both ends of every column, then both ends of every row.\<close>

definition edge_queue :: "image \<Rightarrow> coord list" where
  "edge_queue img =
     concat (map (\<lambda>x. [(x, 0), (x, int (height img) - 1)]) (py_range (int (width img)))) @
     concat (map (\<lambda>y. [(0, y), (int (width img) - 1, y)]) (py_range (int (height img))))"

text \<open>The pixel coordinates of an image; the loop below ends because this set is finite.\<close>

definition grid :: "image \<Rightarrow> coord set" where
  "grid img = {0..<int (width img)} \<times> {0..<int (height img)}"

lemma finite_grid: "finite (grid img)"
  by (simp add: grid_def)

text \<open>
  The \<^verbatim>\<open>while queue\<close> loop. The state is the queue (popped at the front, extended at the
  back), the set \<open>visited\<close> and the set \<open>to_remove\<close>; the result is the two sets when the
  queue is empty.
\<close>

function flood_fill ::
  "image \<Rightarrow> rgb \<Rightarrow> int \<Rightarrow> coord list \<Rightarrow> coord set \<Rightarrow> coord set \<Rightarrow> error + (coord set \<times> coord set)"
where
  "flood_fill img bg_color tolerance [] visited to_remove = Inr (visited, to_remove)"
| "flood_fill img bg_color tolerance ((x, y) # queue) visited to_remove =
     (if (x, y) \<in> visited then flood_fill img bg_color tolerance queue visited to_remove
      else if x < 0 \<or> x \<ge> int (width img) \<or> y < 0 \<or> y \<ge> int (height img)
      then flood_fill img bg_color tolerance queue visited to_remove
      else (case getpixel img (x, y) of
              Inl e \<Rightarrow> Inl e
            | Inr (r, g, b, a) \<Rightarrow>
                if color_distance (uint r, uint g, uint b) bg_color \<le> of_int tolerance
                then flood_fill img bg_color tolerance
                       (queue @ [(x + 1, y), (x - 1, y), (x, y + 1), (x, y - 1)])
                       (insert (x, y) visited) (insert (x, y) to_remove)
                else flood_fill img bg_color tolerance queue (insert (x, y) visited) to_remove))"
  by pat_completeness auto

termination
proof (relation "measure (\<lambda>(img, bg, tol, queue, visited, to_remove).
                   5 * card (grid img - visited) + length queue)")
  show "wf (measure (\<lambda>(img, bg, tol, queue, visited, to_remove).
                   5 * card (grid img - visited) + length queue))"
    by simp
next
  fix img :: image and bg_color :: rgb and tolerance :: int and x y :: int
    and queue :: "coord list" and visited to_remove :: "coord set"
  assume "(x, y) \<in> visited"
  then show "((img, bg_color, tolerance, queue, visited, to_remove),
              (img, bg_color, tolerance, (x, y) # queue, visited, to_remove))
             \<in> measure (\<lambda>(img, bg, tol, queue, visited, to_remove).
                   5 * card (grid img - visited) + length queue)"
    by simp
next
  fix img :: image and bg_color :: rgb and tolerance :: int and x y :: int
    and queue :: "coord list" and visited to_remove :: "coord set"
  show "((img, bg_color, tolerance, queue, visited, to_remove),
              (img, bg_color, tolerance, (x, y) # queue, visited, to_remove))
             \<in> measure (\<lambda>(img, bg, tol, queue, visited, to_remove).
                   5 * card (grid img - visited) + length queue)"
    by simp
next
  fix img :: image and bg_color :: rgb and tolerance :: int and x y :: int
    and queue :: "coord list" and visited to_remove :: "coord set"
  assume nv: "(x, y) \<notin> visited"
    and ib: "\<not> (x < 0 \<or> int (width img) \<le> x \<or> y < 0 \<or> int (height img) \<le> y)"
  have mem: "(x, y) \<in> grid img - visited"
    using nv ib by (simp add: grid_def)
  have "card (grid img - insert (x, y) visited) < card (grid img - visited)"
  proof -
    have eq: "grid img - insert (x, y) visited = (grid img - visited) - {(x, y)}" by blast
    have fin: "finite (grid img - visited)" by (simp add: finite_grid)
    show ?thesis unfolding eq by (rule card_Diff1_less [OF fin mem])
  qed
  then show "((img, bg_color, tolerance,
               queue @ [(x + 1, y), (x - 1, y), (x, y + 1), (x, y - 1)],
               insert (x, y) visited, insert (x, y) to_remove),
              (img, bg_color, tolerance, (x, y) # queue, visited, to_remove))
             \<in> measure (\<lambda>(img, bg, tol, queue, visited, to_remove).
                   5 * card (grid img - visited) + length queue)"
    by simp
  from \<open>card (grid img - insert (x, y) visited) < card (grid img - visited)\<close>
  show "((img, bg_color, tolerance, queue, insert (x, y) visited, to_remove),
              (img, bg_color, tolerance, (x, y) # queue, visited, to_remove))
             \<in> measure (\<lambda>(img, bg, tol, queue, visited, to_remove).
                   5 * card (grid img - visited) + length queue)"
    by simp
qed

section \<open>The transform\<close>

text \<open>
  The final loop writes the transparent pixel \<open>(0, 0, 0, 0)\<close> at every member of
  \<open>to_remove\<close>. Every write stores the same value, so the order in which the set is
  enumerated does not matter; a member outside the grid would raise.
\<close>

definition clear_pixels :: "image \<Rightarrow> coord set \<Rightarrow> error + image" where
  "clear_pixels img to_remove =
     (if \<forall>c \<in> to_remove. in_bounds img c
      then Inr (img\<lparr>pix := (\<lambda>c. if c \<in> to_remove then (0, 0, 0, 0) else pix img c)\<rparr>)
      else Inl IndexError)"


text \<open>
  Three views of the same run on the decoded image, cut off earlier: the pixel grid the
  run ends with (the image handed to \<^verbatim>\<open>save\<close>, or the image as decoded on the early
  return), the local \<open>bg_color\<close> (\<open>None\<close> on the early return) and the local \<open>to_remove\<close>
  (empty on the early return).
\<close>

definition result_image :: "image \<Rightarrow> int \<Rightarrow> int \<Rightarrow> error + image" where
  "result_image img tolerance sample_size =
     (case all_bg_colors img sample_size of
        Inl e \<Rightarrow> Inl e
      | Inr cols \<Rightarrow>
          if cols = [] then Inr img
          else (case average_color cols of
                  Inl e \<Rightarrow> Inl e
                | Inr bg_color \<Rightarrow>
                    (case flood_fill img bg_color tolerance (edge_queue img) {} {} of
                       Inl e \<Rightarrow> Inl e
                     | Inr (visited, to_remove) \<Rightarrow> clear_pixels img to_remove)))"

definition background_estimate :: "image \<Rightarrow> int \<Rightarrow> error + rgb option" where
  "background_estimate img sample_size =
     (case all_bg_colors img sample_size of
        Inl e \<Rightarrow> Inl e
      | Inr cols \<Rightarrow>
          if cols = [] then Inr None
          else (case average_color cols of
                  Inl e \<Rightarrow> Inl e
                | Inr bg_color \<Rightarrow> Inr (Some bg_color)))"

definition removal_set :: "image \<Rightarrow> int \<Rightarrow> int \<Rightarrow> error + coord set" where
  "removal_set img tolerance sample_size =
     (case all_bg_colors img sample_size of
        Inl e \<Rightarrow> Inl e
      | Inr cols \<Rightarrow>
          if cols = [] then Inr {}
          else (case average_color cols of
                  Inl e \<Rightarrow> Inl e
                | Inr bg_color \<Rightarrow>
                    (case flood_fill img bg_color tolerance (edge_queue img) {} {} of
                       Inl e \<Rightarrow> Inl e
                     | Inr (visited, to_remove) \<Rightarrow> Inr to_remove)))"

section \<open>Vocabulary of the properties\<close>

definition rgb_of :: "pixel \<Rightarrow> rgb" where
  "rgb_of p = (case p of (r, g, b, a) \<Rightarrow> (uint r, uint g, uint b))"

text \<open>A pixel matches when its colour is within the tolerance of the estimate.\<close>

definition matches :: "image \<Rightarrow> rgb \<Rightarrow> int \<Rightarrow> coord \<Rightarrow> bool" where
  "matches img bg tol c \<longleftrightarrow> color_distance (rgb_of (pix img c)) bg \<le> of_int tol"

definition on_border :: "image \<Rightarrow> coord \<Rightarrow> bool" where
  "on_border img c =
     (case c of (x, y) \<Rightarrow>
        in_bounds img c \<and>
        (x = 0 \<or> x = int (width img) - 1 \<or> y = 0 \<or> y = int (height img) - 1))"

definition neighbours :: "coord \<Rightarrow> coord list" where
  "neighbours c = (case c of (x, y) \<Rightarrow> [(x + 1, y), (x - 1, y), (x, y + 1), (x, y - 1)])"

text \<open>
  Reachability from the border through matching pixels, one step up, down, left or right
  at a time.
\<close>

inductive reachable :: "image \<Rightarrow> rgb \<Rightarrow> int \<Rightarrow> coord \<Rightarrow> bool"
  for img :: image and bg :: rgb and tol :: int
where
  seed: "on_border img c \<Longrightarrow> matches img bg tol c \<Longrightarrow> reachable img bg tol c"
| step: "reachable img bg tol c \<Longrightarrow> c' \<in> set (neighbours c) \<Longrightarrow> in_bounds img c' \<Longrightarrow>
         matches img bg tol c' \<Longrightarrow> reachable img bg tol c'"

text \<open>
  The coordinates of a square window in the order the two loops enumerate them, and the
  coordinates the four corner windows contribute after clipping to the grid (a coordinate
  occurs once for every window that contains it).
\<close>

definition window_coords :: "int \<Rightarrow> int \<Rightarrow> int \<Rightarrow> coord list" where
  "window_coords start_x start_y sz =
     concat (map (\<lambda>dy. map (\<lambda>dx. (start_x + dx, start_y + dy)) (py_range sz)) (py_range sz))"

definition sampled_coords :: "image \<Rightarrow> int \<Rightarrow> coord list" where
  "sampled_coords img sample_size =
     concat (map (\<lambda>(cx, cy). filter (in_bounds img) (window_coords cx cy sample_size))
                 (corner_regions img sample_size))"

text \<open>
  The loop invariant of the flood fill: visited pixels lie in the grid; the removal set is
  the matching part of the visited set and consists of reachable pixels; whatever is queued
  and would be absorbed is reachable; and nothing is forgotten: every border pixel and every
  neighbour of an absorbed pixel is visited or still queued.
\<close>

definition ff_inv :: "image \<Rightarrow> rgb \<Rightarrow> int \<Rightarrow> coord list \<Rightarrow> coord set \<Rightarrow> coord set \<Rightarrow> bool" where
  "ff_inv img bg tol queue visited to_remove \<longleftrightarrow>
     (\<forall>c \<in> visited. in_bounds img c) \<and>
     to_remove = {c \<in> visited. matches img bg tol c} \<and>
     (\<forall>c \<in> to_remove. reachable img bg tol c) \<and>
     (\<forall>c \<in> set queue. in_bounds img c \<longrightarrow> matches img bg tol c \<longrightarrow> reachable img bg tol c) \<and>
     (\<forall>c \<in> to_remove. \<forall>c' \<in> set (neighbours c).
         in_bounds img c' \<longrightarrow> c' \<in> visited \<or> c' \<in> set queue) \<and>
     (\<forall>c. on_border img c \<longrightarrow> c \<in> visited \<or> c \<in> set queue)"

text \<open>
  The componentwise mean of a list of colours as the specification words it: the floor of
  the sum of a channel divided by the number of samples.
\<close>

definition mean_color :: "rgb list \<Rightarrow> rgb" where
  "mean_color cols =
     (\<lfloor>real_of_int (sum_list (map (\<lambda>(r, g, b). r) cols)) / real (length cols)\<rfloor>,
      \<lfloor>real_of_int (sum_list (map (\<lambda>(r, g, b). g) cols)) / real (length cols)\<rfloor>,
      \<lfloor>real_of_int (sum_list (map (\<lambda>(r, g, b). b) cols)) / real (length cols)\<rfloor>)"

text \<open>The mean of the corner samples, and an image with a set of pixels made transparent.\<close>

definition estimate :: "image \<Rightarrow> int \<Rightarrow> rgb" where
  "estimate img n = mean_color (map (\<lambda>c. rgb_of (pix img c)) (sampled_coords img n))"

definition cleared :: "image \<Rightarrow> coord set \<Rightarrow> image" where
  "cleared img S = img\<lparr>pix := (\<lambda>c. if c \<in> S then (0, 0, 0, 0) else pix img c)\<rparr>"

section \<open>Example images\<close>

text \<open>
  A 2\<times>2 image with four different corners.
\<close>

definition tiny :: image where
  "tiny = \<lparr>width = 2, height = 2,
           pix = (\<lambda>c. if c = (0, 0) then (50, 0, 0, 255)
                      else if c = (1, 0) then (250, 0, 0, 255)
                      else (200, 0, 0, 255))\<rparr>"

text \<open>
  A chain: a non-empty list of pixels of the grid, each within the tolerance of the
  estimate, that starts on the border and moves one step up, down, left or right at a time.
\<close>

definition is_chain :: "image \<Rightarrow> rgb \<Rightarrow> int \<Rightarrow> coord list \<Rightarrow> bool" where
  "is_chain img bg tol cs \<longleftrightarrow>
     cs \<noteq> [] \<and> on_border img (hd cs) \<and>
     (\<forall>c \<in> set cs. in_bounds img c \<and> matches img bg tol c) \<and>
     successively (\<lambda>a b. b \<in> set (neighbours a)) cs"

text \<open>
  A 5\<times>5 image: a magenta border, a black ring, and a magenta pixel in the middle.
\<close>

definition ring5 :: image where
  "ring5 = \<lparr>width = 5, height = 5,
            pix = (\<lambda>c. case c of (x, y) \<Rightarrow>
                     if 1 \<le> x \<and> x \<le> 3 \<and> 1 \<le> y \<and> y \<le> 3 \<and> (x, y) \<noteq> (2, 2)
                     then (0, 0, 0, 255) else (255, 0, 255, 255))\<rparr>"

text \<open>
  Two images of the same size whose pixels agree in red, green and blue (their alpha
  channels may differ), and a copy of the 2\<times>2 example with other alpha values.
\<close>

definition same_rgb :: "image \<Rightarrow> image \<Rightarrow> bool" where
  "same_rgb img1 img2 \<longleftrightarrow>
     width img1 = width img2 \<and> height img1 = height img2 \<and>
     (\<forall>c. in_bounds img1 c \<longrightarrow> rgb_of (pix img1 c) = rgb_of (pix img2 c))"

definition tiny_faded :: image where
  "tiny_faded = \<lparr>width = 2, height = 2,
           pix = (\<lambda>c. if c = (0, 0) then (50, 0, 0, 7)
                      else if c = (1, 0) then (250, 0, 0, 0)
                      else if c = (0, 1) then (200, 0, 0, 128)
                      else (200, 0, 0, 31))\<rparr>"

text \<open>
  The transform applied to its own output, the estimate that second run computes, and a
  pixel of a result.
\<close>

definition run_twice :: "image \<Rightarrow> int \<Rightarrow> int \<Rightarrow> error + image" where
  "run_twice img tolerance sample_size =
     (case result_image img tolerance sample_size of
        Inl e \<Rightarrow> Inl e
      | Inr out \<Rightarrow> result_image out tolerance sample_size)"

definition second_estimate :: "image \<Rightarrow> int \<Rightarrow> int \<Rightarrow> error + rgb option" where
  "second_estimate img tolerance sample_size =
     (case result_image img tolerance sample_size of
        Inl e \<Rightarrow> Inl e
      | Inr out \<Rightarrow> background_estimate out sample_size)"

definition pixel_of :: "error + image \<Rightarrow> coord \<Rightarrow> error + pixel" where
  "pixel_of res c = (case res of Inl e \<Rightarrow> Inl e | Inr img \<Rightarrow> Inr (pix img c))"

text \<open>A 3\<times>1 image whose middle pixel is the mean of its two ends.\<close>

definition strip3 :: image where
  "strip3 = \<lparr>width = 3, height = 1,
             pix = (\<lambda>c. if c = (0, 0) then (200, 0, 0, 255)
                        else if c = (1, 0) then (150, 0, 0, 255)
                        else (100, 0, 0, 255))\<rparr>"

text \<open>An image of a single pixel.\<close>

definition dot :: image where
  "dot = \<lparr>width = 1, height = 1, pix = (\<lambda>c. (12, 34, 56, 255))\<rparr>"

text \<open>
  The square window of a corner, the number of corner windows that contain a pixel, and
  the mean of a channel over the grid with every pixel weighted by that number.
\<close>

definition in_window :: "int \<Rightarrow> coord \<Rightarrow> coord \<Rightarrow> bool" where
  "in_window sz corner c =
     (case corner of (cx, cy) \<Rightarrow> case c of (x, y) \<Rightarrow>
        cx \<le> x \<and> x < cx + sz \<and> cy \<le> y \<and> y < cy + sz)"

definition weight :: "image \<Rightarrow> int \<Rightarrow> coord \<Rightarrow> nat" where
  "weight img n c = length (filter (\<lambda>corner. in_window n corner c) (corner_regions img n))"

definition weighted_mean :: "image \<Rightarrow> int \<Rightarrow> (rgb \<Rightarrow> int) \<Rightarrow> int" where
  "weighted_mean img n f =
     (\<Sum>c \<in> grid img. int (weight img n c) * f (rgb_of (pix img c))) div
     (\<Sum>c \<in> grid img. int (weight img n c))"

text \<open>A 3\<times>1 image with a brighter pixel in the middle.\<close>

definition bar3 :: image where
  "bar3 = \<lparr>width = 3, height = 1,
            pix = (\<lambda>c. if c = (1, 0) then (90, 0, 0, 255) else (30, 0, 0, 255))\<rparr>"

text \<open>
  A 4\<times>4 image with a magenta border, one pixel wide, around a centre of four pixels that
  are not magenta; one such image with a green centre, and one whose centre is almost
  magenta.
\<close>

definition magenta_frame :: "image \<Rightarrow> bool" where
  "magenta_frame img \<longleftrightarrow>
     width img = 4 \<and> height img = 4 \<and>
     (\<forall>c. on_border img c \<longrightarrow> rgb_of (pix img c) = (255, 0, 255)) \<and>
     (\<forall>c. in_bounds img c \<and> \<not> on_border img c \<longrightarrow> rgb_of (pix img c) \<noteq> (255, 0, 255))"

definition frame4 :: image where
  "frame4 = \<lparr>width = 4, height = 4,
             pix = (\<lambda>c. case c of (x, y) \<Rightarrow>
                      if 1 \<le> x \<and> x \<le> 2 \<and> 1 \<le> y \<and> y \<le> 2
                      then (10, 200, 30, 128) else (255, 0, 255, 255))\<rparr>"

definition near4 :: image where
  "near4 = \<lparr>width = 4, height = 4,
             pix = (\<lambda>c. case c of (x, y) \<Rightarrow>
                      if 1 \<le> x \<and> x \<le> 2 \<and> 1 \<le> y \<and> y \<le> 2
                      then (255, 1, 255, 255) else (255, 0, 255, 255))\<rparr>"

section \<open>The flood fill with a step counter\<close>




section \<open>The imaging library\<close>






section \<open>Basic facts\<close>

lemma sqrt_of_int_le_iff:
  "sqrt (of_int n) \<le> of_int t \<longleftrightarrow> 0 \<le> t \<and> n \<le> t\<^sup>2" if "0 \<le> n"
proof (cases "0 \<le> t")
  case True
  have "sqrt (of_int n) \<le> of_int t \<longleftrightarrow> sqrt (of_int n) \<le> sqrt ((of_int t)\<^sup>2)"
    using True by simp
  also have "\<dots> \<longleftrightarrow> (of_int n :: real) \<le> (of_int t)\<^sup>2"
    by (rule real_sqrt_le_iff)
  also have "\<dots> \<longleftrightarrow> (of_int n :: real) \<le> of_int (t\<^sup>2)"
    by simp
  also have "\<dots> \<longleftrightarrow> n \<le> t\<^sup>2"
    by (rule of_int_le_iff)
  finally show ?thesis using True by simp
next
  case False
  have "0 \<le> sqrt (of_int n)" using that by simp
  moreover have "(of_int t :: real) < 0" using False by simp
  ultimately have "\<not> sqrt (of_int n) \<le> of_int t" by linarith
  then show ?thesis using False by simp
qed

lemma color_distance_le_iff:
  "color_distance (r1, g1, b1) (r2, g2, b2) \<le> of_int t \<longleftrightarrow>
     0 \<le> t \<and> (r1 - r2)\<^sup>2 + (g1 - g2)\<^sup>2 + (b1 - b2)\<^sup>2 \<le> t\<^sup>2"
  unfolding color_distance_def prod.case
  by (rule sqrt_of_int_le_iff) simp

lemma color_distance_le_numeral:
  "color_distance (r1, g1, b1) (r2, g2, b2) \<le> numeral k \<longleftrightarrow>
     (r1 - r2)\<^sup>2 + (g1 - g2)\<^sup>2 + (b1 - b2)\<^sup>2 \<le> (numeral k)\<^sup>2"
  using color_distance_le_iff [of r1 g1 b1 r2 g2 b2 "numeral k"] by simp

lemma color_distance_le_zero:
  "color_distance (r1, g1, b1) (r2, g2, b2) \<le> 0 \<longleftrightarrow>
     (r1 - r2)\<^sup>2 + (g1 - g2)\<^sup>2 + (b1 - b2)\<^sup>2 \<le> 0"
  using color_distance_le_iff [of r1 g1 b1 r2 g2 b2 0] by simp

section \<open>Corner sampling never leaves the grid\<close>

lemma getpixel_in_bounds: "in_bounds img c \<Longrightarrow> getpixel img c = Inr (pix img c)"
  by (simp add: getpixel_def)

lemma for_each_append_fun:
  "for_each xs (\<lambda>x s. Inr (s @ g x)) s = Inr (s @ concat (map g xs))"
  by (induction xs arbitrary: s) simp_all

lemma for_each_append:
  assumes "\<And>x s. body x s = Inr (s @ g x)"
  shows "for_each xs body s = Inr (s @ concat (map g xs))"
proof -
  have "body = (\<lambda>x s. Inr (s @ g x))" by (intro ext) (rule assms)
  then show ?thesis by (simp only: for_each_append_fun)
qed

lemma concat_map_guard:
  "concat (map (\<lambda>x. if P (h x) then [f (h x)] else []) xs) = map f (filter P (map h xs))"
  by (induction xs) simp_all

lemma sample_body:
  "(let x = start_x + dx; y = start_y + dy in
       if 0 \<le> x \<and> x < int (width img) \<and> 0 \<le> y \<and> y < int (height img)
       then (case getpixel img (x, y) of
               Inl e \<Rightarrow> Inl e
             | Inr (r, g, b, a) \<Rightarrow> Inr (colors @ [(uint r, uint g, uint b)]))
       else Inr colors)
   = Inr (colors @ (if in_bounds img (start_x + dx, start_y + dy)
                    then [rgb_of (pix img (start_x + dx, start_y + dy))] else []))"
  by (cases "pix img (start_x + dx, start_y + dy)")
     (simp add: Let_def in_bounds_def getpixel_def rgb_of_def)

lemma sample_corner_region_eq:
  "sample_corner_region img start_x start_y sz =
     Inr (map (\<lambda>c. rgb_of (pix img c)) (filter (in_bounds img) (window_coords start_x start_y sz)))"
proof -
  have row: "for_each (py_range sz) (\<lambda>dx colors.
         let x = start_x + dx; y = start_y + dy in
         if 0 \<le> x \<and> x < int (width img) \<and> 0 \<le> y \<and> y < int (height img)
         then (case getpixel img (x, y) of
                 Inl e \<Rightarrow> Inl e
               | Inr (r, g, b, a) \<Rightarrow> Inr (colors @ [(uint r, uint g, uint b)]))
         else Inr colors) colors
     = Inr (colors @ map (\<lambda>c. rgb_of (pix img c))
              (filter (in_bounds img) (map (\<lambda>dx. (start_x + dx, start_y + dy)) (py_range sz))))"
    for dy colors
    by (subst for_each_append [OF sample_body])
       (simp only: concat_map_guard [of "in_bounds img" "\<lambda>dx. (start_x + dx, start_y + dy)"
                                        "\<lambda>c. rgb_of (pix img c)"])
  show ?thesis
    unfolding sample_corner_region_def window_coords_def
    by (subst for_each_append [OF row]) (simp add: map_concat filter_concat comp_def)
qed

lemma corner_body:
  "(case c of (cx, cy) \<Rightarrow> \<lambda>acc.
       case sample_corner_region img cx cy n of
         Inl e \<Rightarrow> Inl e
       | Inr cols \<Rightarrow> Inr (acc @ cols)) acc
   = Inr (acc @ map (\<lambda>c. rgb_of (pix img c))
            (case c of (cx, cy) \<Rightarrow> filter (in_bounds img) (window_coords cx cy n)))"
  by (cases c) (simp add: sample_corner_region_eq)

lemma all_bg_colors_eq:
  "all_bg_colors img n = Inr (map (\<lambda>c. rgb_of (pix img c)) (sampled_coords img n))"
  unfolding all_bg_colors_def sampled_coords_def
  by (subst for_each_append [OF corner_body]) (simp add: map_concat comp_def split_def)

lemma sampled_coords_in_bounds: "c \<in> set (sampled_coords img n) \<Longrightarrow> in_bounds img c"
  by (auto simp: sampled_coords_def)

lemma average_color_eq:
  "cols \<noteq> [] \<Longrightarrow> average_color cols =
     Inr (sum_list (map (\<lambda>(r, g, b). r) cols) div int (length cols),
          sum_list (map (\<lambda>(r, g, b). g) cols) div int (length cols),
          sum_list (map (\<lambda>(r, g, b). b) cols) div int (length cols))"
  by (simp add: average_color_def floordiv_def)

lemma origin_sampled:
  assumes "0 < width img" "0 < height img" "1 \<le> n"
  shows "(0, 0) \<in> set (sampled_coords img n)"
proof -
  have "(0::int) \<in> set (py_range n)" using assms(3) by (simp add: py_range_def)
  then have "(0, 0) \<in> set (window_coords 0 0 n)"
    by (force simp: window_coords_def)
  moreover have "in_bounds img (0, 0)" using assms by (simp add: in_bounds_def)
  ultimately show ?thesis
    by (simp add: sampled_coords_def corner_regions_def)
qed

lemma sampled_coords_empty:
  "width img = 0 \<or> height img = 0 \<Longrightarrow> sampled_coords img n = []"
  by (auto simp: sampled_coords_def corner_regions_def in_bounds_def filter_empty_conv)

section \<open>The flood fill computes border reachability\<close>

lemma flood_fill_step:
  "flood_fill img bg tol ((x, y) # queue) visited to_remove =
     (if (x, y) \<in> visited \<or> \<not> in_bounds img (x, y)
      then flood_fill img bg tol queue visited to_remove
      else if matches img bg tol (x, y)
      then flood_fill img bg tol (queue @ neighbours (x, y))
             (insert (x, y) visited) (insert (x, y) to_remove)
      else flood_fill img bg tol queue (insert (x, y) visited) to_remove)"
  by (cases "pix img (x, y)")
     (auto simp: getpixel_def in_bounds_def matches_def rgb_of_def neighbours_def)

lemma ff_inv_skip:
  assumes "ff_inv img bg tol (c # queue) visited to_remove"
    and "c \<in> visited \<or> \<not> in_bounds img c"
  shows "ff_inv img bg tol queue visited to_remove"
  using assms unfolding ff_inv_def on_border_def
  by (auto split: prod.splits)

lemma ff_inv_absorb:
  assumes "ff_inv img bg tol (c # queue) visited to_remove"
    and "c \<notin> visited" "in_bounds img c" "matches img bg tol c"
  shows "ff_inv img bg tol (queue @ neighbours c) (insert c visited) (insert c to_remove)"
proof -
  from assms have r: "reachable img bg tol c" by (simp add: ff_inv_def)
  have nb: "reachable img bg tol c'"
    if "c' \<in> set (neighbours c)" "in_bounds img c'" "matches img bg tol c'" for c'
    using reachable.step [OF r that] .
  show ?thesis
    using assms r nb unfolding ff_inv_def
    by (intro conjI) auto
qed

lemma ff_inv_reject:
  assumes "ff_inv img bg tol (c # queue) visited to_remove"
    and "c \<notin> visited" "in_bounds img c" "\<not> matches img bg tol c"
  shows "ff_inv img bg tol queue (insert c visited) to_remove"
  using assms unfolding ff_inv_def
  by (intro conjI) auto

declare flood_fill.simps(2) [simp del]

lemma flood_fill_inv:
  "ff_inv img bg tol queue visited to_remove \<Longrightarrow>
   \<exists>visited' to_remove'.
     flood_fill img bg tol queue visited to_remove = Inr (visited', to_remove') \<and>
     ff_inv img bg tol [] visited' to_remove'"
proof (induction img bg tol queue visited to_remove rule: flood_fill.induct)
  case (1 img bg tol visited to_remove)
  then show ?case by simp
next
  case (2 img bg tol x y queue visited to_remove)
  note inv = "2.prems"
  have ib: "in_bounds img (x, y) \<longleftrightarrow>
      \<not> (x < 0 \<or> int (width img) \<le> x \<or> y < 0 \<or> int (height img) \<le> y)"
    by (auto simp: in_bounds_def)
  show ?case
  proof (cases "(x, y) \<in> visited")
    case True
    with inv have "ff_inv img bg tol queue visited to_remove"
      by (auto intro: ff_inv_skip)
    from "2.IH"(1) [OF True this] True show ?thesis
      by (simp add: flood_fill_step)
  next
    case nv: False
    show ?thesis
    proof (cases "in_bounds img (x, y)")
      case False
      with inv have i: "ff_inv img bg tol queue visited to_remove"
        by (auto intro: ff_inv_skip)
      from False have "x < 0 \<or> int (width img) \<le> x \<or> y < 0 \<or> int (height img) \<le> y"
        by (simp add: ib)
      from "2.IH"(2) [OF nv this i] False show ?thesis
        by (simp add: flood_fill_step)
    next
      case True
      then have nb: "\<not> (x < 0 \<or> int (width img) \<le> x \<or> y < 0 \<or> int (height img) \<le> y)"
        by (simp add: ib)
      obtain r g b a where p: "pix img (x, y) = (r, g, b, a)"
        by (cases "pix img (x, y)") auto
      have gp: "getpixel img (x, y) = Inr (r, g, b, a)"
        using True p by (simp add: getpixel_def)
      have m: "matches img bg tol (x, y) \<longleftrightarrow>
          color_distance (uint r, uint g, uint b) bg \<le> real_of_int tol"
        by (simp add: matches_def p rgb_of_def)
      show ?thesis
      proof (cases "matches img bg tol (x, y)")
        case mt: True
        have i: "ff_inv img bg tol (queue @ neighbours (x, y))
                   (insert (x, y) visited) (insert (x, y) to_remove)"
          by (rule ff_inv_absorb [OF inv nv True mt])
        from mt have d: "color_distance (uint r, uint g, uint b) bg \<le> real_of_int tol"
          by (simp add: m)
        from "2.IH"(3) [OF nv nb gp refl refl refl d] i nv True mt show ?thesis
          by (simp add: flood_fill_step neighbours_def)
      next
        case mf: False
        have i: "ff_inv img bg tol queue (insert (x, y) visited) to_remove"
          by (rule ff_inv_reject [OF inv nv True mf])
        from mf have d: "\<not> color_distance (uint r, uint g, uint b) bg \<le> real_of_int tol"
          by (simp add: m)
        from "2.IH"(4) [OF nv nb gp refl refl refl d i] nv True mf show ?thesis
          by (simp add: flood_fill_step)
      qed
    qed
  qed
qed



lemma ff_inv_final:
  assumes "ff_inv img bg tol [] visited to_remove"
  shows "to_remove = {c. reachable img bg tol c}"
proof -
  from assms have eq: "to_remove = {c \<in> visited. matches img bg tol c}"
    unfolding ff_inv_def by (elim conjE)
  from assms have bd: "\<forall>c. on_border img c \<longrightarrow> c \<in> visited \<or> c \<in> set []"
    unfolding ff_inv_def by (elim conjE)
  from assms have nb: "\<forall>c \<in> to_remove. \<forall>c' \<in> set (neighbours c).
         in_bounds img c' \<longrightarrow> c' \<in> visited \<or> c' \<in> set []"
    unfolding ff_inv_def by (elim conjE)
  from assms have rc: "\<forall>c \<in> to_remove. reachable img bg tol c"
    unfolding ff_inv_def by (elim conjE)
  have bd': "c \<in> visited" if "on_border img c" for c
    using bd [rule_format, OF that] by simp
  have nb': "c' \<in> visited"
    if "c \<in> to_remove" "c' \<in> set (neighbours c)" "in_bounds img c'" for c c'
    using nb [rule_format, OF that] by simp
  have "c \<in> to_remove" if "reachable img bg tol c" for c
    using that
  proof induction
    case (seed c)
    from seed(1) have "c \<in> visited" by (rule bd')
    with seed(2) show ?case by (simp add: eq)
  next
    case (step c c')
    from step(5) step(2) step(3) have "c' \<in> visited" by (rule nb')
    with step(4) show ?case by (simp add: eq)
  qed
  moreover have "reachable img bg tol c" if "c \<in> to_remove" for c
    using rc [rule_format, OF that] .
  ultimately show ?thesis by blast
qed

section \<open>The whole run\<close>

text \<open>Clearing a set at once is what the writes, one pixel after the other, do.\<close>

lemma clear_pixels_putpixel:
  "for_each cs (\<lambda>c im. putpixel im c (0, 0, 0, 0)) img = clear_pixels img (set cs)"
proof (induction cs arbitrary: img)
  case Nil
  show ?case by (simp add: clear_pixels_def)
next
  case (Cons c cs)
  show ?case
  proof (cases "in_bounds img c")
    case False
    then show ?thesis by (simp add: putpixel_def clear_pixels_def)
  next
    case True
    let ?im = "img\<lparr>pix := (pix img)(c := (0, 0, 0, 0))\<rparr>"
    have ib: "in_bounds ?im = in_bounds img"
      by (intro ext) (simp add: in_bounds_def)
    have px: "(\<lambda>d. if d \<in> set cs then (0, 0, 0, 0) else pix ?im d) =
              (\<lambda>d. if d \<in> set (c # cs) then (0, 0, 0, 0) else pix img d)"
      by (intro ext) simp
    have "for_each (c # cs) (\<lambda>c im. putpixel im c (0, 0, 0, 0)) img =
          for_each cs (\<lambda>c im. putpixel im c (0, 0, 0, 0)) ?im"
      using True by (simp add: putpixel_def)
    also have "\<dots> = clear_pixels ?im (set cs)" by (rule Cons.IH)
    also have "\<dots> = clear_pixels img (set (c # cs))"
      unfolding clear_pixels_def ib px using True by simp
    finally show ?thesis .
  qed
qed

lemma floor_quotient: "\<lfloor>real_of_int a / real n\<rfloor> = a div int n"
proof -
  have "real_of_int a / real n = real_of_int a / real_of_int (int n)" by simp
  then show ?thesis by (simp only: floor_divide_of_int_eq)
qed

lemma average_color_mean: "cols \<noteq> [] \<Longrightarrow> average_color cols = Inr (mean_color cols)"
  by (simp add: average_color_eq mean_color_def floor_quotient)

lemma set_py_range: "set (py_range n) = {0..<n}"
  by (auto simp: py_range_def)

lemma edge_queue_border:
  assumes "c \<in> set (edge_queue img)" "in_bounds img c"
  shows "on_border img c"
  using assms by (auto simp: edge_queue_def on_border_def set_py_range)

lemma border_edge_queue:
  assumes "on_border img c"
  shows "c \<in> set (edge_queue img)"
proof -
  obtain x y where c: "c = (x, y)" by (cases c)
  from assms have ib: "0 \<le> x" "x < int (width img)" "0 \<le> y" "y < int (height img)"
    and e: "x = 0 \<or> x = int (width img) - 1 \<or> y = 0 \<or> y = int (height img) - 1"
    by (simp_all add: c on_border_def in_bounds_def)
  from ib have xr: "x \<in> set (py_range (int (width img)))"
    and yr: "y \<in> set (py_range (int (height img)))"
    by (simp_all add: set_py_range)
  from e consider "y = 0" | "y = int (height img) - 1" | "x = 0" | "x = int (width img) - 1"
    by blast
  then show ?thesis
  proof cases
    case 1 with xr show ?thesis unfolding c edge_queue_def by force
  next
    case 2 with xr show ?thesis unfolding c edge_queue_def by force
  next
    case 3 with yr show ?thesis unfolding c edge_queue_def by force
  next
    case 4 with yr show ?thesis unfolding c edge_queue_def by force
  qed
qed

lemma ff_inv_init: "ff_inv img bg tol (edge_queue img) {} {}"
proof -
  have "reachable img bg tol c"
    if "c \<in> set (edge_queue img)" "in_bounds img c" "matches img bg tol c" for c
    using that by (auto intro: reachable.seed edge_queue_border)
  moreover have "c \<in> set (edge_queue img)" if "on_border img c" for c
    using that by (rule border_edge_queue)
  ultimately show ?thesis unfolding ff_inv_def by simp
qed

lemma flood_fill_edge:
  "\<exists>visited. flood_fill img bg tol (edge_queue img) {} {} =
      Inr (visited, {c. reachable img bg tol c})"
proof -
  from flood_fill_inv [OF ff_inv_init] obtain visited to_remove
    where r: "flood_fill img bg tol (edge_queue img) {} {} = Inr (visited, to_remove)"
      and i: "ff_inv img bg tol [] visited to_remove"
    by blast
  from ff_inv_final [OF i] r show ?thesis by simp
qed

lemma reachable_in_bounds: "reachable img bg tol c \<Longrightarrow> in_bounds img c"
  by (induction rule: reachable.induct) (simp_all add: on_border_def split: prod.splits)

lemma reachable_matches: "reachable img bg tol c \<Longrightarrow> matches img bg tol c"
  by (induction rule: reachable.induct) simp_all

lemma clear_pixels_reachable:
  "clear_pixels img {c. reachable img bg tol c} = Inr (cleared img {c. reachable img bg tol c})"
  by (simp add: clear_pixels_def cleared_def reachable_in_bounds)

lemma run_empty:
  assumes "sampled_coords img n = []"
  shows "background_estimate img n = Inr None"
    and "removal_set img tol n = Inr {}"
    and "result_image img tol n = Inr img"
  using assms
  by (simp_all add: background_estimate_def removal_set_def
        result_image_def all_bg_colors_eq)

lemma run_nonempty:
  assumes "sampled_coords img n \<noteq> []"
  shows "background_estimate img n = Inr (Some (estimate img n))"
    and "removal_set img tol n = Inr {c. reachable img (estimate img n) tol c}"
    and "result_image img tol n =
           Inr (cleared img {c. reachable img (estimate img n) tol c})"
proof -
  let ?cols = "map (\<lambda>c. rgb_of (pix img c)) (sampled_coords img n)"
  have ne: "?cols \<noteq> []" using assms by simp
  have avg: "average_color ?cols = Inr (estimate img n)"
    using average_color_mean [OF ne] by (simp add: estimate_def)
  obtain visited where ff: "flood_fill img (estimate img n) tol (edge_queue img) {} {} =
      Inr (visited, {c. reachable img (estimate img n) tol c})"
    using flood_fill_edge by blast
  show "background_estimate img n = Inr (Some (estimate img n))"
    using assms avg by (simp add: background_estimate_def all_bg_colors_eq)
  show "removal_set img tol n = Inr {c. reachable img (estimate img n) tol c}"
    using assms avg ff by (simp add: removal_set_def all_bg_colors_eq)
  show "result_image img tol n =
           Inr (cleared img {c. reachable img (estimate img n) tol c})"
    using assms avg ff
    by (simp add: result_image_def all_bg_colors_eq clear_pixels_reachable)
qed

lemma sampled_nonempty:
  "0 < width img \<Longrightarrow> 0 < height img \<Longrightarrow> 1 \<le> n \<Longrightarrow> sampled_coords img n \<noteq> []"
  using origin_sampled [of img n] by auto

section \<open>Evaluation on concrete images\<close>

lemmas sampling_defs =
  all_bg_colors_def corner_regions_def sample_corner_region_def py_range_def
  getpixel_def in_bounds_def upto.simps average_color_def floordiv_def

lemmas run_defs =
  result_image_def removal_set_def background_estimate_def
  edge_queue_def clear_pixels_def flood_fill.simps

lemma removal_set_tiny: "removal_set tiny 30 1 = Inr {(0, 1), (1, 1)}"
  by (simp add: run_defs sampling_defs tiny_def color_distance_le_numeral insert_commute)

lemma run_frame:
  "\<exists>img' R. result_image img tol n = Inr img' \<and>
      removal_set img tol n = Inr R \<and>
      width img' = width img \<and> height img' = height img \<and>
      (\<forall>c \<in> R. pix img' c = (0, 0, 0, 0)) \<and>
      (\<forall>c. c \<notin> R \<longrightarrow> pix img' c = pix img c)"
proof (cases "sampled_coords img n = []")
  case True
  show ?thesis by (simp add: run_empty [OF True])
next
  case False
  show ?thesis by (simp add: run_nonempty [OF False] cleared_def)
qed

section \<open>Chains and enclosed regions\<close>

lemma on_border_in_bounds: "on_border img c \<Longrightarrow> in_bounds img c"
  by (simp add: on_border_def split: prod.splits)

lemma neighbours_sym: "c' \<in> set (neighbours c) \<Longrightarrow> c \<in> set (neighbours c')"
  by (cases c; cases c') (auto simp: neighbours_def)

lemma chain_reachable:
  "is_chain img bg tol cs \<Longrightarrow> reachable img bg tol (last cs)"
proof (induction cs rule: rev_induct)
  case Nil
  then show ?case by (simp add: is_chain_def)
next
  case (snoc c cs)
  show ?case
  proof (cases "cs = []")
    case True
    with snoc.prems show ?thesis
      by (simp add: is_chain_def reachable.seed)
  next
    case False
    from snoc.prems False have ch: "is_chain img bg tol cs"
      by (simp add: is_chain_def successively_append_iff)
    from snoc.prems False have adj: "c \<in> set (neighbours (last cs))"
      by (simp add: is_chain_def successively_append_iff)
    from snoc.prems have ok: "in_bounds img c" "matches img bg tol c"
      by (simp_all add: is_chain_def)
    from reachable.step [OF snoc.IH [OF ch] adj ok] show ?thesis by simp
  qed
qed

lemma reachable_chain:
  "reachable img bg tol c \<Longrightarrow> \<exists>cs. is_chain img bg tol cs \<and> last cs = c"
proof (induction rule: reachable.induct)
  case (seed c)
  then have "is_chain img bg tol [c]"
    by (simp add: is_chain_def on_border_in_bounds)
  then show ?case by (intro exI [of _ "[c]"]) simp
next
  case (step c c')
  then obtain cs where ch: "is_chain img bg tol cs" and l: "last cs = c" by blast
  from ch have ne: "cs \<noteq> []" by (simp add: is_chain_def)
  from ch ne l step.hyps have "is_chain img bg tol (cs @ [c'])"
    by (simp add: is_chain_def successively_append_iff)
  then show ?case by (intro exI [of _ "cs @ [c']"]) simp
qed

lemma reachable_iff_chain:
  "reachable img bg tol c \<longleftrightarrow> (\<exists>cs. is_chain img bg tol cs \<and> last cs = c)"
  using reachable_chain chain_reachable by blast

lemma reachable_enclosed:
  assumes nb: "\<And>c. c \<in> S \<Longrightarrow> \<not> on_border img c"
    and ring: "\<And>c c'. c \<in> S \<Longrightarrow> c' \<in> set (neighbours c) \<Longrightarrow> c' \<notin> S \<Longrightarrow>
                 \<not> matches img bg tol c'"
    and r: "reachable img bg tol c"
  shows "c \<notin> S"
  using r
proof (induction rule: reachable.induct)
  case (seed c)
  then show ?case using nb by blast
next
  case (step c c')
  show ?case
  proof
    assume in_S: "c' \<in> S"
    from step.hyps(2) have "c \<in> set (neighbours c')" by (rule neighbours_sym)
    from ring [OF in_S this step.IH] reachable_matches [OF step.hyps(1)]
    show False by simp
  qed
qed

lemma run_chain:
  assumes "0 < width img" "0 < height img" "1 \<le> n"
  shows "\<exists>bg. background_estimate img n = Inr (Some bg) \<and>
      removal_set img tol n = Inr {c. \<exists>cs. is_chain img bg tol cs \<and> last cs = c} \<and>
      result_image img tol n =
        Inr (cleared img {c. \<exists>cs. is_chain img bg tol cs \<and> last cs = c})"
proof -
  have ne: "sampled_coords img n \<noteq> []" using assms by (rule sampled_nonempty)
  have "{c. reachable img (estimate img n) tol c} =
        {c. \<exists>cs. is_chain img (estimate img n) tol cs \<and> last cs = c}"
    by (simp add: reachable_iff_chain)
  with run_nonempty(1) [OF ne] run_nonempty(2) [OF ne, of tol] run_nonempty(3) [OF ne, of tol]
  show ?thesis by simp
qed

lemma estimate_ring5: "background_estimate ring5 1 = Inr (Some (255, 0, 255))"
  by (simp add: background_estimate_def sampling_defs ring5_def)

section \<open>The alpha channel is never read\<close>

lemma same_rgb_in_bounds: "same_rgb img1 img2 \<Longrightarrow> in_bounds img1 = in_bounds img2"
  by (intro ext) (simp add: same_rgb_def in_bounds_def)

lemma same_rgb_on_border: "same_rgb img1 img2 \<Longrightarrow> on_border img1 = on_border img2"
  by (intro ext) (simp add: same_rgb_def on_border_def in_bounds_def)

lemma same_rgb_sampled:
  "same_rgb img1 img2 \<Longrightarrow> sampled_coords img1 n = sampled_coords img2 n"
  by (simp add: sampled_coords_def corner_regions_def same_rgb_in_bounds [of img1 img2])
     (simp add: same_rgb_def)

lemma same_rgb_pix:
  "same_rgb img1 img2 \<Longrightarrow> in_bounds img1 c \<Longrightarrow> rgb_of (pix img1 c) = rgb_of (pix img2 c)"
  unfolding same_rgb_def by blast

lemma same_rgb_colors:
  assumes "same_rgb img1 img2"
  shows "map (\<lambda>c. rgb_of (pix img1 c)) (sampled_coords img1 n) =
         map (\<lambda>c. rgb_of (pix img2 c)) (sampled_coords img2 n)"
proof -
  have "map (\<lambda>c. rgb_of (pix img1 c)) (sampled_coords img1 n) =
        map (\<lambda>c. rgb_of (pix img2 c)) (sampled_coords img1 n)"
  proof (rule map_cong [OF refl])
    fix c assume "c \<in> set (sampled_coords img1 n)"
    then have "in_bounds img1 c" by (rule sampled_coords_in_bounds)
    with assms show "rgb_of (pix img1 c) = rgb_of (pix img2 c)"
      by (rule same_rgb_pix)
  qed
  then show ?thesis by (simp only: same_rgb_sampled [OF assms])
qed

lemma same_rgb_matches:
  "same_rgb img1 img2 \<Longrightarrow> in_bounds img1 c \<Longrightarrow>
     matches img1 bg tol c = matches img2 bg tol c"
  by (simp add: matches_def same_rgb_pix)

lemma same_rgb_reachable:
  assumes s: "same_rgb img1 img2" and r: "reachable img1 bg tol c"
  shows "reachable img2 bg tol c"
  using r
proof (induction rule: reachable.induct)
  case (seed c)
  from seed(1) have b: "on_border img2 c" by (simp only: same_rgb_on_border [OF s])
  from seed(1) have "in_bounds img1 c" by (rule on_border_in_bounds)
  with seed(2) have "matches img2 bg tol c" by (simp only: same_rgb_matches [OF s])
  with b show ?case by (rule reachable.seed)
next
  case (step c c')
  from step.hyps(3) have ib: "in_bounds img2 c'" by (simp only: same_rgb_in_bounds [OF s])
  from step.hyps(3) step.hyps(4) have "matches img2 bg tol c'"
    by (simp only: same_rgb_matches [OF s])
  from reachable.step [OF step.IH step.hyps(2) ib this] show ?case .
qed

lemma same_rgb_sym: "same_rgb img1 img2 \<Longrightarrow> same_rgb img2 img1"
  by (simp add: same_rgb_def in_bounds_def)

lemma same_rgb_run:
  assumes s: "same_rgb img1 img2"
  shows "background_estimate img1 n = background_estimate img2 n"
    and "removal_set img1 tol n = removal_set img2 tol n"
proof -
  have e: "estimate img1 n = estimate img2 n"
    by (simp only: estimate_def same_rgb_colors [OF s])
  have r: "{c. reachable img1 bg tol c} = {c. reachable img2 bg tol c}" for bg
    using same_rgb_reachable [OF s] same_rgb_reachable [OF same_rgb_sym [OF s]] by blast
  show "background_estimate img1 n = background_estimate img2 n"
  proof (cases "sampled_coords img1 n = []")
    case True
    with same_rgb_sampled [OF s, of n] have t: "sampled_coords img2 n = []" by simp
    show ?thesis by (simp only: run_empty(1) [OF True] run_empty(1) [OF t])
  next
    case False
    with same_rgb_sampled [OF s, of n] have f: "sampled_coords img2 n \<noteq> []" by simp
    show ?thesis by (simp only: run_nonempty(1) [OF False] run_nonempty(1) [OF f] e)
  qed
  show "removal_set img1 tol n = removal_set img2 tol n"
  proof (cases "sampled_coords img1 n = []")
    case True
    with same_rgb_sampled [OF s, of n] have t: "sampled_coords img2 n = []" by simp
    show ?thesis by (simp only: run_empty(2) [OF True] run_empty(2) [OF t])
  next
    case False
    with same_rgb_sampled [OF s, of n] have f: "sampled_coords img2 n \<noteq> []" by simp
    show ?thesis by (simp only: run_nonempty(2) [OF False] run_nonempty(2) [OF f] e r)
  qed
qed

section \<open>A second run\<close>

lemma run_tiny: "result_image tiny 30 1 = Inr (cleared tiny {(0, 1), (1, 1)})"
proof -
  have ne: "sampled_coords tiny 1 \<noteq> []"
    by (rule sampled_nonempty) (simp_all add: tiny_def)
  from run_nonempty(2) [OF ne, of 30] have "{c. reachable tiny (estimate tiny 1) 30 c} = {(0, 1), (1, 1)}"
    by (simp add: removal_set_tiny)
  with run_nonempty(3) [OF ne, of 30] show ?thesis by simp
qed

lemma second_estimate_tiny: "second_estimate tiny 30 1 = Inr (Some (75, 0, 0))"
  by (simp add: second_estimate_def run_tiny)
     (simp add: background_estimate_def sampling_defs cleared_def tiny_def)

lemma second_removal_tiny: "removal_set (cleared tiny {(0, 1), (1, 1)}) 30 1 = Inr {(0, 0)}"
  by (simp add: run_defs sampling_defs cleared_def tiny_def color_distance_le_numeral)

lemma reachable_cleared_False:
  assumes z: "\<not> color_distance (0, 0, 0) bg \<le> real_of_int tol"
    and r: "reachable (cleared img {c. reachable img bg tol c}) bg tol c"
  shows False
  using r
proof (induction rule: reachable.induct)
  case (seed c)
  let ?out = "cleared img {c. reachable img bg tol c}"
  from seed(1) have b: "on_border img c"
    by (simp add: on_border_def in_bounds_def cleared_def)
  show ?case
  proof (cases "reachable img bg tol c")
    case True
    then have "rgb_of (pix ?out c) = (0, 0, 0)" by (simp add: cleared_def rgb_of_def)
    with seed(2) z show False by (simp add: matches_def)
  next
    case False
    then have "pix ?out c = pix img c" by (simp add: cleared_def)
    with seed(2) have "matches img bg tol c" by (simp add: matches_def)
    with b have "reachable img bg tol c" by (rule reachable.seed)
    with False show False by simp
  qed
next
  case (step c c')
  then show ?case by simp
qed

lemma cleared_empty: "cleared img {} = img"
  by (simp add: cleared_def)

lemma cleared_size: "width (cleared img S) = width img" "height (cleared img S) = height img"
  by (simp_all add: cleared_def)

lemma run_strip3: "result_image strip3 10 1 = Inr (cleared strip3 {(1, 0)})"
proof -
  have ne: "sampled_coords strip3 1 \<noteq> []"
    by (rule sampled_nonempty) (simp_all add: strip3_def)
  have "removal_set strip3 10 1 = Inr {(1, 0)}"
    by (simp add: run_defs sampling_defs strip3_def color_distance_le_numeral)
  with run_nonempty(2) [OF ne, of 10]
  have "{c. reachable strip3 (estimate strip3 1) 10 c} = {(1, 0)}" by simp
  with run_nonempty(3) [OF ne, of 10] show ?thesis by simp
qed

section \<open>The mean of the samples\<close>

lemma mean_color_const:
  assumes ne: "cols \<noteq> []" and all: "\<And>c. c \<in> set cols \<Longrightarrow> c = v"
  shows "mean_color cols = v"
proof -
  obtain r g b where v: "v = (r, g, b)" by (cases v)
  have rep: "cols = replicate (length cols) v"
    using all by (intro replicate_eqI) simp_all
  have len: "0 < length cols" using ne by simp
  have s: "sum_list (map f cols) = int (length cols) * f v" for f :: "rgb \<Rightarrow> int"
    by (subst rep) (simp add: sum_list_replicate)
  show ?thesis
    using len by (simp add: mean_color_def floor_quotient s v)
qed

lemma matches_self: "rgb_of (pix img c) = bg \<Longrightarrow> 0 \<le> tol \<Longrightarrow> matches img bg tol c"
  by (cases bg) (simp add: matches_def color_distance_le_iff)

lemma single_pixel:
  assumes "width img = 1" "height img = 1" "1 \<le> n"
  shows "background_estimate img n = Inr (Some (rgb_of (pix img (0, 0))))"
    and "pixel_of (result_image img 0 n) (0, 0) = Inr (0, 0, 0, 0)"
proof -
  have ne: "sampled_coords img n \<noteq> []"
    using assms by (intro sampled_nonempty) simp_all
  have only: "c = (0, 0)" if "c \<in> set (sampled_coords img n)" for c
    using sampled_coords_in_bounds [OF that] assms(1,2)
    by (cases c) (simp add: in_bounds_def)
  have e: "estimate img n = rgb_of (pix img (0, 0))"
    unfolding estimate_def
    by (rule mean_color_const) (use ne only in auto)
  show "background_estimate img n = Inr (Some (rgb_of (pix img (0, 0))))"
    by (simp add: run_nonempty(1) [OF ne] e)
  have b: "on_border img (0, 0)"
    using assms(1,2) by (simp add: on_border_def in_bounds_def)
  have "matches img (estimate img n) 0 (0, 0)"
    by (rule matches_self) (simp_all add: e)
  with b have "reachable img (estimate img n) 0 (0, 0)" by (rule reachable.seed)
  then show "pixel_of (result_image img 0 n) (0, 0) = Inr (0, 0, 0, 0)"
    by (simp add: run_nonempty(3) [OF ne] pixel_of_def cleared_def)
qed

section \<open>Windows, clipping and multiplicity\<close>

lemma in_bounds_grid: "in_bounds img c \<longleftrightarrow> c \<in> grid img"
  by (cases c) (auto simp: in_bounds_def grid_def)

lemma window_coords_product:
  "window_coords sx sy sz =
     map (\<lambda>(dy, dx). (sx + dx, sy + dy)) (List.product (py_range sz) (py_range sz))"
proof -
  have "concat (map (\<lambda>dy. map (\<lambda>dx. (sx + dx, sy + dy)) ys) xs) =
        map (\<lambda>(dy, dx). (sx + dx, sy + dy)) (List.product xs ys)" for xs ys :: "int list"
    by (induction xs) (simp_all add: comp_def)
  then show ?thesis by (simp only: window_coords_def)
qed

lemma distinct_window_coords: "distinct (window_coords sx sy sz)"
proof -
  have "inj_on (\<lambda>(dy, dx). (sx + dx, sy + dy)) A" for A :: "(int \<times> int) set"
    by (auto simp: inj_on_def)
  moreover have "distinct (List.product (py_range sz) (py_range sz))"
    by (simp add: distinct_product py_range_def)
  ultimately show ?thesis
    by (simp only: window_coords_product distinct_map)
qed

lemma set_window_coords:
  "set (window_coords sx sy sz) = {sx..<sx + sz} \<times> {sy..<sy + sz}"
proof (intro set_eqI)
  fix c :: coord
  obtain x y where c: "c = (x, y)" by (cases c)
  have "(x, y) \<in> set (window_coords sx sy sz) \<longleftrightarrow>
        (\<exists>dy \<in> {0..<sz}. \<exists>dx \<in> {0..<sz}. x = sx + dx \<and> y = sy + dy)"
    by (auto simp: window_coords_def set_py_range)
  also have "\<dots> \<longleftrightarrow> x \<in> {sx..<sx + sz} \<and> y \<in> {sy..<sy + sz}"
  proof
    assume "\<exists>dy \<in> {0..<sz}. \<exists>dx \<in> {0..<sz}. x = sx + dx \<and> y = sy + dy"
    then show "x \<in> {sx..<sx + sz} \<and> y \<in> {sy..<sy + sz}" by auto
  next
    assume a: "x \<in> {sx..<sx + sz} \<and> y \<in> {sy..<sy + sz}"
    then have "y - sy \<in> {0..<sz}" "x - sx \<in> {0..<sz}" by auto
    moreover have "x = sx + (x - sx) \<and> y = sy + (y - sy)" by simp
    ultimately show "\<exists>dy \<in> {0..<sz}. \<exists>dx \<in> {0..<sz}. x = sx + dx \<and> y = sy + dy"
      by blast
  qed
  finally show "c \<in> set (window_coords sx sy sz) \<longleftrightarrow> c \<in> {sx..<sx + sz} \<times> {sy..<sy + sz}"
    by (simp add: c)
qed

lemma background_estimate_eq:
  "background_estimate img n =
     Inr (if sampled_coords img n = [] then None
          else Some (mean_color (map (\<lambda>c. rgb_of (pix img c)) (sampled_coords img n))))"
proof (cases "sampled_coords img n = []")
  case True
  then show ?thesis by (simp add: run_empty(1))
next
  case False
  then show ?thesis by (simp add: run_nonempty(1) estimate_def)
qed

lemma sampled_bar3: "sampled_coords bar3 2 =
    [(0, 0), (1, 0), (1, 0), (2, 0), (0, 0), (1, 0), (1, 0), (2, 0)]"
  by (simp add: sampled_coords_def corner_regions_def window_coords_def py_range_def
        in_bounds_def upto.simps bar3_def)


lemma count_list_distinct:
  "distinct xs \<Longrightarrow> count_list xs c = (if c \<in> set xs then 1 else 0)"
  by (induction xs) auto

lemma count_list_filter:
  "count_list (filter P xs) c = (if P c then count_list xs c else 0)"
  by (induction xs) auto

lemma count_list_concat_map:
  "count_list (concat (map f xs)) c = sum_list (map (\<lambda>x. count_list (f x) c) xs)"
  by (induction xs) simp_all

lemma sum_list_indicator:
  "sum_list (map (\<lambda>x. if P x then 1 else 0) xs) = length (filter P xs)"
  by (induction xs) simp_all

lemma count_window:
  "count_list (filter (in_bounds img) (window_coords cx cy n)) c =
     (if in_bounds img c \<and> in_window n (cx, cy) c then 1 else 0)"
proof -
  have "c \<in> set (window_coords cx cy n) \<longleftrightarrow> in_window n (cx, cy) c"
    by (cases c) (simp add: set_window_coords in_window_def)
  then show ?thesis
    by (simp add: count_list_filter count_list_distinct [OF distinct_window_coords])
qed

lemma count_sampled:
  "count_list (sampled_coords img n) c = (if in_bounds img c then weight img n c else 0)"
proof -
  have "count_list (sampled_coords img n) c =
        sum_list (map (\<lambda>corner. if in_bounds img c \<and> in_window n corner c then 1 else 0)
                      (corner_regions img n))"
  proof -
    have "count_list (case corner of (cx, cy) \<Rightarrow>
              filter (in_bounds img) (window_coords cx cy n)) c =
          (if in_bounds img c \<and> in_window n corner c then 1 else 0)" for corner
      by (cases corner) (simp add: count_window)
    then show ?thesis
      unfolding sampled_coords_def count_list_concat_map by (simp add: split_def)
  qed
  also have "\<dots> = length (filter (\<lambda>corner. in_bounds img c \<and> in_window n corner c)
                                (corner_regions img n))"
    by (rule sum_list_indicator)
  also have "\<dots> = (if in_bounds img c then weight img n c else 0)"
    by (simp add: weight_def)
  finally show ?thesis .
qed

lemma sum_list_by_count:
  fixes f :: "'a \<Rightarrow> int"
  assumes "finite A"
  shows "set xs \<subseteq> A \<Longrightarrow> sum_list (map f xs) = (\<Sum>x \<in> A. int (count_list xs x) * f x)"
proof (induction xs)
  case Nil
  show ?case by simp
next
  case (Cons a xs)
  then have a: "a \<in> A" and sub: "set xs \<subseteq> A" by simp_all
  have "(\<Sum>x \<in> A. int (count_list (a # xs) x) * f x) =
        (\<Sum>x \<in> A. int (count_list xs x) * f x + (if a = x then f x else 0))"
    by (rule sum.cong [OF refl]) (simp add: algebra_simps)
  also have "\<dots> = (\<Sum>x \<in> A. int (count_list xs x) * f x) + (\<Sum>x \<in> A. if a = x then f x else 0)"
    by (rule sum.distrib)
  also have "(\<Sum>x \<in> A. if a = x then f x else 0) = f a"
    using assms a by (simp add: sum.delta')
  finally show ?case using Cons.IH [OF sub] by simp
qed

lemma sampled_sums:
  shows "sum_list (map f (map (\<lambda>c. rgb_of (pix img c)) (sampled_coords img n))) =
     (\<Sum>c \<in> grid img. int (weight img n c) * f (rgb_of (pix img c)))"
  and "int (length (sampled_coords img n)) = (\<Sum>c \<in> grid img. int (weight img n c))"
proof -
  have sub: "set (sampled_coords img n) \<subseteq> grid img"
    using sampled_coords_in_bounds by (auto simp: in_bounds_grid)
  have cnt: "c \<in> grid img \<Longrightarrow> count_list (sampled_coords img n) c = weight img n c" for c
    by (simp add: count_sampled in_bounds_grid)
  have "sum_list (map (\<lambda>c. f (rgb_of (pix img c))) (sampled_coords img n)) =
        (\<Sum>c \<in> grid img. int (count_list (sampled_coords img n) c) * f (rgb_of (pix img c)))"
    by (rule sum_list_by_count [OF finite_grid sub])
  also have "\<dots> = (\<Sum>c \<in> grid img. int (weight img n c) * f (rgb_of (pix img c)))"
    by (rule sum.cong [OF refl]) (simp add: cnt)
  finally show "sum_list (map f (map (\<lambda>c. rgb_of (pix img c)) (sampled_coords img n))) =
     (\<Sum>c \<in> grid img. int (weight img n c) * f (rgb_of (pix img c)))"
    by (simp add: comp_def)
  have "sum_list (map (\<lambda>c. 1) (sampled_coords img n)) =
        (\<Sum>c \<in> grid img. int (count_list (sampled_coords img n) c) * 1)"
    by (rule sum_list_by_count [OF finite_grid sub])
  also have "\<dots> = (\<Sum>c \<in> grid img. int (weight img n c))"
    by (rule sum.cong [OF refl]) (simp add: cnt)
  finally show "int (length (sampled_coords img n)) = (\<Sum>c \<in> grid img. int (weight img n c))"
    by (simp add: sum_list_triv)
qed

lemma mean_color_weighted:
  "mean_color (map (\<lambda>c. rgb_of (pix img c)) (sampled_coords img n)) =
     (weighted_mean img n (\<lambda>(r, g, b). r),
      weighted_mean img n (\<lambda>(r, g, b). g),
      weighted_mean img n (\<lambda>(r, g, b). b))"
  unfolding mean_color_def floor_quotient weighted_mean_def
  by (simp only: sampled_sums length_map)

lemma weight_overlap:
  assumes "0 < width img" "0 < height img" "1 \<le> n"
    and "int (width img) < 2 * n \<or> int (height img) < 2 * n"
  shows "\<exists>c. in_bounds img c \<and> 2 \<le> weight img n c"
  using assms(4)
proof
  assume w: "int (width img) < 2 * n"
  let ?x = "max 0 (int (width img) - n)"
  have "in_bounds img (?x, 0)" using assms(1-3) by (simp add: in_bounds_def)
  moreover have "in_window n (0, 0) (?x, 0)" "in_window n (int (width img) - n, 0) (?x, 0)"
    using assms(1-3) w by (simp_all add: in_window_def)
  then have "2 \<le> weight img n (?x, 0)"
    by (simp add: weight_def corner_regions_def)
  ultimately show ?thesis by blast
next
  assume h: "int (height img) < 2 * n"
  let ?y = "max 0 (int (height img) - n)"
  have "in_bounds img (0, ?y)" using assms(1-3) by (simp add: in_bounds_def)
  moreover have "in_window n (0, 0) (0, ?y)" "in_window n (0, int (height img) - n) (0, ?y)"
    using assms(1-3) h by (simp_all add: in_window_def)
  then have "2 \<le> weight img n (0, ?y)"
    by (simp add: weight_def corner_regions_def)
  ultimately show ?thesis by blast
qed

lemma weight_disjoint:
  assumes "2 * n \<le> int (width img)" "2 * n \<le> int (height img)"
  shows "weight img n c \<le> 1"
proof -
  obtain x y where c: "c = (x, y)" by (cases c)
  show ?thesis
    using assms unfolding c weight_def corner_regions_def in_window_def
    by (simp split: if_splits) 
qed

section \<open>The magenta frame\<close>

lemma frame_border:
  assumes "magenta_frame img"
  shows "on_border img c \<Longrightarrow> rgb_of (pix img c) = (255, 0, 255)"
  using assms unfolding magenta_frame_def by blast

lemma frame_estimate:
  assumes f: "magenta_frame img"
  shows "sampled_coords img 1 \<noteq> []" and "estimate img 1 = (255, 0, 255)"
proof -
  from f have d: "width img = 4" "height img = 4" by (simp_all add: magenta_frame_def)
  have s: "sampled_coords img 1 = [(0, 0), (3, 0), (0, 3), (3, 3)]"
    by (simp add: sampled_coords_def corner_regions_def window_coords_def py_range_def
          in_bounds_def upto.simps d)
  show "sampled_coords img 1 \<noteq> []" by (simp add: s)
  have b: "on_border img c" if "c \<in> set (sampled_coords img 1)" for c
    using that by (auto simp: s on_border_def in_bounds_def d)
  show "estimate img 1 = (255, 0, 255)"
    unfolding estimate_def
  proof (rule mean_color_const)
    show "map (\<lambda>c. rgb_of (pix img c)) (sampled_coords img 1) \<noteq> []" by (simp add: s)
    fix v assume "v \<in> set (map (\<lambda>c. rgb_of (pix img c)) (sampled_coords img 1))"
    then obtain c where "c \<in> set (sampled_coords img 1)" "v = rgb_of (pix img c)" by auto
    with b frame_border [OF f] show "v = (255, 0, 255)" by simp
  qed
qed

lemma frame_reachable:
  assumes f: "magenta_frame img"
    and far: "\<And>c. in_bounds img c \<Longrightarrow> \<not> on_border img c \<Longrightarrow>
                \<not> matches img (255, 0, 255) 10 c"
  shows "reachable img (255, 0, 255) 10 c \<longleftrightarrow> on_border img c"
proof
  assume "reachable img (255, 0, 255) 10 c"
  then show "on_border img c"
  proof (induction rule: reachable.induct)
    case (seed c)
    then show ?case by simp
  next
    case (step c c')
    from far [OF step.hyps(3)] step.hyps(4) show ?case by blast
  qed
next
  assume b: "on_border img c"
  have "matches img (255, 0, 255) 10 c"
    by (rule matches_self) (simp_all add: frame_border [OF f b])
  with b show "reachable img (255, 0, 255) 10 c" by (rule reachable.seed)
qed

lemma frame_border_card:
  assumes "width img = 4" "height img = 4"
  shows "card {c. on_border img c} = 12"
proof -
  have "{c. on_border img c} = ({0..<4} \<times> {0..<4}) - ({1..<3} \<times> {1..<3})"
    using assms by (auto simp: on_border_def in_bounds_def)
  moreover have "card (({0..<4::int} \<times> {0..<4::int}) - ({1..<3} \<times> {1..<3})) = 16 - 4"
    by (subst card_Diff_subset) (auto simp: card_cartesian_product)
  ultimately show ?thesis by simp
qed

lemma frame_run:
  assumes f: "magenta_frame img"
    and far: "\<forall>c. in_bounds img c \<and> \<not> on_border img c \<longrightarrow> \<not> matches img (255, 0, 255) 10 c"
  shows "removal_set img 10 1 = Inr {c. on_border img c}"
    and "result_image img 10 1 = Inr (cleared img {c. on_border img c})"
proof -
  have far': "\<not> matches img (255, 0, 255) 10 c" if "in_bounds img c" "\<not> on_border img c" for c
    using far that by blast
  have r: "{c. reachable img (255, 0, 255) 10 c} = {c. on_border img c}"
    using frame_reachable [OF f far'] by blast
  show "removal_set img 10 1 = Inr {c. on_border img c}"
    using run_nonempty(2) [OF frame_estimate(1) [OF f], of 10]
    by (simp only: frame_estimate(2) [OF f] r)
  show "result_image img 10 1 = Inr (cleared img {c. on_border img c})"
    using run_nonempty(3) [OF frame_estimate(1) [OF f], of 10]
    by (simp only: frame_estimate(2) [OF f] r)
qed

lemma magenta_frame_frame4: "magenta_frame frame4"
  by (auto simp: magenta_frame_def on_border_def in_bounds_def frame4_def rgb_of_def)

lemma magenta_frame_near4: "magenta_frame near4"
  by (auto simp: magenta_frame_def on_border_def in_bounds_def near4_def rgb_of_def)

section \<open>Work done by the flood fill\<close>













section \<open>From bytes to bytes\<close>





section \<open>The claims\<close>

text \<open>
  C2. After the transform every pixel of the removal set is exactly \<open>(0, 0, 0, 0)\<close>, every
  other pixel keeps its red, green, blue and alpha values, and the output has the width and
  the height of the input. This holds for every image, tolerance and sample size, and the
  run always produces such an output.
\<close>

theorem output_frame:
  "\<exists>img' R. result_image img tol n = Inr img' \<and>
      removal_set img tol n = Inr R \<and>
      width img' = width img \<and> height img' = height img \<and>
      (\<forall>c \<in> R. pix img' c = (0, 0, 0, 0)) \<and>
      (\<forall>c. c \<notin> R \<longrightarrow> pix img' c = pix img c)"
  by (rule run_frame)

theorem output_frame_witness:
  "\<exists>img'. result_image tiny 30 1 = Inr img' \<and>
      width img' = 2 \<and> height img' = 2 \<and>
      pix img' (0, 1) = (0, 0, 0, 0) \<and> pix img' (1, 1) = (0, 0, 0, 0) \<and>
      pix img' (0, 0) = (50, 0, 0, 255) \<and> pix img' (1, 0) = (250, 0, 0, 255)"
proof -
  from output_frame [of tiny 30 1] obtain img' R
    where r: "result_image tiny 30 1 = Inr img'"
      and s: "removal_set tiny 30 1 = Inr R"
      and d: "width img' = width tiny" "height img' = height tiny"
      and z: "\<forall>c \<in> R. pix img' c = (0, 0, 0, 0)"
      and k: "\<forall>c. c \<notin> R \<longrightarrow> pix img' c = pix tiny c"
    by blast
  from s have R: "R = {(0, 1), (1, 1)}" by (simp add: removal_set_tiny)
  from z have "pix img' (0, 1) = (0, 0, 0, 0)" "pix img' (1, 1) = (0, 0, 0, 0)"
    by (simp_all add: R)
  moreover from k [rule_format, of "(0, 0)"] k [rule_format, of "(1, 0)"]
  have "pix img' (0, 0) = (50, 0, 0, 255)" "pix img' (1, 0) = (250, 0, 0, 255)"
    by (simp_all add: R tiny_def)
  ultimately show ?thesis using r d by (simp add: tiny_def)
qed

text \<open>
  C1. For a non-empty image, a tolerance \<open>\<ge> 0\<close> and a sample size \<open>\<ge> 1\<close>, the removal
  set is exactly the set of pixels at the end of a chain from the border, and these are the
  pixels the transform clears. In particular a set of pixels that does not touch the border
  and whose neighbours outside the set do not match is disjoint from the removal set, also
  when its own pixels match the estimate.
\<close>

theorem removes_border_connected:
  assumes "0 < width img" and "0 < height img" and "0 \<le> tol" and "1 \<le> n"
  shows "\<exists>bg R. background_estimate img n = Inr (Some bg) \<and>
      R = {c. \<exists>cs. is_chain img bg tol cs \<and> last cs = c} \<and>
      removal_set img tol n = Inr R \<and>
      result_image img tol n = Inr (cleared img R) \<and>
      (\<forall>S. (\<forall>c \<in> S. \<not> on_border img c) \<and>
           (\<forall>c \<in> S. \<forall>c' \<in> set (neighbours c). c' \<notin> S \<longrightarrow> \<not> matches img bg tol c')
           \<longrightarrow> S \<inter> R = {})"
proof -
  from run_chain [OF assms(1,2,4), of tol] obtain bg
    where e: "background_estimate img n = Inr (Some bg)"
      and s: "removal_set img tol n =
                Inr {c. \<exists>cs. is_chain img bg tol cs \<and> last cs = c}"
      and o: "result_image img tol n =
                Inr (cleared img {c. \<exists>cs. is_chain img bg tol cs \<and> last cs = c})"
    by blast
  let ?R = "{c. \<exists>cs. is_chain img bg tol cs \<and> last cs = c}"
  have iso: "\<forall>S. (\<forall>c \<in> S. \<not> on_border img c) \<and>
           (\<forall>c \<in> S. \<forall>c' \<in> set (neighbours c). c' \<notin> S \<longrightarrow> \<not> matches img bg tol c')
           \<longrightarrow> S \<inter> ?R = {}"
  proof (intro allI impI, elim conjE)
    fix S :: "coord set"
    assume a: "\<forall>c \<in> S. \<not> on_border img c"
      and b: "\<forall>c \<in> S. \<forall>c' \<in> set (neighbours c). c' \<notin> S \<longrightarrow> \<not> matches img bg tol c'"
    have a': "\<not> on_border img c" if "c \<in> S" for c
      using a [rule_format, OF that] .
    have b': "\<not> matches img bg tol c'"
      if "c \<in> S" "c' \<in> set (neighbours c)" "c' \<notin> S" for c c'
      using b [rule_format, OF that] .
    have "c \<notin> S" if "c \<in> ?R" for c
    proof -
      from that have r: "reachable img bg tol c"
        by (simp only: mem_Collect_eq reachable_iff_chain)
      show ?thesis
      proof (rule reachable_enclosed [where S = S and img = img and bg = bg and tol = tol])
        show "\<not> on_border img d" if "d \<in> S" for d
          using that by (rule a')
        show "\<not> matches img bg tol d'"
          if "d \<in> S" "d' \<in> set (neighbours d)" "d' \<notin> S" for d d'
          using that by (rule b')
        show "reachable img bg tol c" by (rule r)
      qed
    qed
    then show "S \<inter> ?R = {}" by (simp only: disjoint_iff) blast
  qed
  show ?thesis
  proof (intro exI conjI)
    show "background_estimate img n = Inr (Some bg)" by (rule e)
    show "?R = ?R" by (rule refl)
    show "removal_set img tol n = Inr ?R" by (rule s)
    show "result_image img tol n = Inr (cleared img ?R)" by (rule o)
    show "\<forall>S. (\<forall>c \<in> S. \<not> on_border img c) \<and>
           (\<forall>c \<in> S. \<forall>c' \<in> set (neighbours c). c' \<notin> S \<longrightarrow> \<not> matches img bg tol c')
           \<longrightarrow> S \<inter> ?R = {}" by (rule iso)
  qed
qed

theorem removes_border_connected_witness:
  "removal_set ring5 10 1 =
     Inr {c. \<exists>cs. is_chain ring5 (255, 0, 255) 10 cs \<and> last cs = c} \<and>
   matches ring5 (255, 0, 255) 10 (2, 2) \<and>
   (2, 2) \<notin> {c. \<exists>cs. is_chain ring5 (255, 0, 255) 10 cs \<and> last cs = c}"
proof -
  have h: "0 < width ring5" "0 < height ring5" "(0::int) \<le> 10" "(1::int) \<le> 1"
    by (simp_all add: ring5_def)
  have m: "matches ring5 (255, 0, 255) 10 (2, 2)"
    by (simp add: matches_def rgb_of_def ring5_def color_distance_le_numeral)
  have nb: "\<forall>c \<in> {(2, 2)}. \<not> on_border ring5 c"
    by (simp add: on_border_def in_bounds_def ring5_def)
  have ring: "\<forall>c \<in> {(2, 2)}. \<forall>c' \<in> set (neighbours c).
            c' \<notin> {(2, 2)} \<longrightarrow> \<not> matches ring5 (255, 0, 255) 10 c'"
    by (simp add: neighbours_def matches_def rgb_of_def ring5_def color_distance_le_numeral)
  from removes_border_connected [OF h] show ?thesis
  proof (elim exE conjE)
    fix bg R
    assume e: "background_estimate ring5 1 = Inr (Some bg)"
      and R: "R = {c. \<exists>cs. is_chain ring5 bg 10 cs \<and> last cs = c}"
      and s: "removal_set ring5 10 1 = Inr R"
      and i: "\<forall>S. (\<forall>c \<in> S. \<not> on_border ring5 c) \<and>
           (\<forall>c \<in> S. \<forall>c' \<in> set (neighbours c). c' \<notin> S \<longrightarrow> \<not> matches ring5 bg 10 c')
           \<longrightarrow> S \<inter> R = {}"
    from e have bg: "bg = (255, 0, 255)" by (simp add: estimate_ring5)
    have "{(2, 2)} \<inter> R = {}"
      by (rule i [unfolded bg, rule_format, of "{(2, 2)}", OF conjI [OF nb ring]])
    then have "(2, 2) \<notin> R" by blast
    with s m show ?thesis unfolding R bg by (intro conjI)
  qed
qed

text \<open>
  C10. Two images of the same width and height whose pixels have the same red, green and
  blue channels give the same background estimate and the same removal set, whatever
  their alpha channels, for the same tolerance and sample size.
\<close>

theorem alpha_never_matters:
  assumes "width img1 = width img2" and "height img1 = height img2"
    and "\<forall>c. in_bounds img1 c \<longrightarrow> rgb_of (pix img1 c) = rgb_of (pix img2 c)"
  shows "background_estimate img1 n = background_estimate img2 n \<and>
         removal_set img1 tol n = removal_set img2 tol n"
proof -
  from assms have "same_rgb img1 img2" by (simp only: same_rgb_def simp_thms)
  then show ?thesis by (intro conjI same_rgb_run)
qed

theorem alpha_never_matters_witness:
  "pix tiny (0, 0) \<noteq> pix tiny_faded (0, 0) \<and>
   background_estimate tiny_faded 1 = background_estimate tiny 1 \<and>
   removal_set tiny_faded 30 1 = Inr {(0, 1), (1, 1)}"
proof -
  have d: "width tiny = width tiny_faded" "height tiny = height tiny_faded"
    by (simp_all add: tiny_def tiny_faded_def)
  have c: "\<forall>c. in_bounds tiny c \<longrightarrow> rgb_of (pix tiny c) = rgb_of (pix tiny_faded c)"
    by (simp add: tiny_def tiny_faded_def rgb_of_def)
  from alpha_never_matters [OF d c, of 1 30] show ?thesis
    by (simp add: removal_set_tiny) (simp add: tiny_def tiny_faded_def)
qed

text \<open>
  C3. A second run on the output of the first, with the same tolerance and sample size,
  returns its input unchanged when the second run computes the same background estimate as
  the first and \<open>(0, 0, 0)\<close> is not within the tolerance of that estimate.

  The condition on \<open>(0, 0, 0)\<close> alone is not enough. In the 2\<times>2 example the first run,
  with estimate \<open>(175, 0, 0)\<close>, clears the two lower pixels; the second run computes
  the estimate \<open>(75, 0, 0)\<close>, from which \<open>(0, 0, 0)\<close> is at distance 75 > 30, and
  clears the pixel \<open>(50, 0, 0)\<close> as well.
\<close>

theorem second_pass_same_estimate:
  assumes r1: "result_image img tol n = Inr out"
    and same: "background_estimate out n = background_estimate img n"
    and far: "\<forall>bg. background_estimate out n = Inr (Some bg) \<longrightarrow>
                \<not> color_distance (0, 0, 0) bg \<le> real_of_int tol"
  shows "result_image out tol n = Inr out"
proof (cases "sampled_coords img n = []")
  case True
  from r1 have "out = img" by (simp add: run_empty(3) [OF True])
  with True show ?thesis by (simp add: run_empty(3))
next
  case False
  let ?bg = "estimate img n"
  from r1 have out: "out = cleared img {c. reachable img ?bg tol c}"
    by (simp add: run_nonempty(3) [OF False])
  have "sampled_coords out n = sampled_coords img n"
    by (simp add: out sampled_coords_def corner_regions_def cleared_def in_bounds_def [abs_def])
  with False have ne: "sampled_coords out n \<noteq> []" by simp
  from same have e: "estimate out n = ?bg"
    by (simp add: run_nonempty(1) [OF ne] run_nonempty(1) [OF False])
  from far [rule_format, of ?bg] have z: "\<not> color_distance (0, 0, 0) ?bg \<le> real_of_int tol"
    by (simp add: run_nonempty(1) [OF ne] e)
  have "{c. reachable out ?bg tol c} = {}"
    using reachable_cleared_False [OF z] by (auto simp: out)
  with run_nonempty(3) [OF ne, of tol] show ?thesis
    by (simp add: e cleared_empty)
qed

theorem second_pass_same_estimate_witness:
  "background_estimate (cleared strip3 {(1, 0)}) 1 = Inr (Some (150, 0, 0)) \<and>
   background_estimate strip3 1 = Inr (Some (150, 0, 0)) \<and>
   result_image strip3 10 1 = Inr (cleared strip3 {(1, 0)}) \<and>
   result_image (cleared strip3 {(1, 0)}) 10 1 = Inr (cleared strip3 {(1, 0)})"
proof -
  have e1: "background_estimate strip3 1 = Inr (Some (150, 0, 0))"
    by (simp add: background_estimate_def sampling_defs strip3_def)
  have e2: "background_estimate (cleared strip3 {(1, 0)}) 1 = Inr (Some (150, 0, 0))"
    by (simp add: background_estimate_def sampling_defs strip3_def cleared_def)
  have far: "\<forall>bg. background_estimate (cleared strip3 {(1, 0)}) 1 = Inr (Some bg) \<longrightarrow>
                \<not> color_distance (0, 0, 0) bg \<le> real_of_int 10"
    by (simp add: e2 color_distance_le_numeral)
  from second_pass_same_estimate [OF run_strip3 _ far] e1 e2 run_strip3
  show ?thesis by simp
qed

theorem second_pass_counterexample:
  "second_estimate tiny 30 1 = Inr (Some (75, 0, 0)) \<and>
   \<not> color_distance (0, 0, 0) (75, 0, 0) \<le> 30 \<and>
   pixel_of (result_image tiny 30 1) (0, 0) = Inr (50, 0, 0, 255) \<and>
   pixel_of (run_twice tiny 30 1) (0, 0) = Inr (0, 0, 0, 0) \<and>
   run_twice tiny 30 1 \<noteq> result_image tiny 30 1"
proof -
  have a: "pixel_of (result_image tiny 30 1) (0, 0) = Inr (50, 0, 0, 255)"
    by (simp add: run_tiny pixel_of_def) (simp add: cleared_def tiny_def)
  have b: "pixel_of (run_twice tiny 30 1) (0, 0) = Inr (0, 0, 0, 0)"
    by (simp add: run_twice_def run_tiny pixel_of_def)
       (simp add: run_defs sampling_defs cleared_def tiny_def color_distance_le_numeral)
  have c: "\<not> color_distance (0, 0, 0) (75, 0, 0) \<le> 30"
    by (simp add: color_distance_le_numeral)
  from a b have "run_twice tiny 30 1 \<noteq> result_image tiny 30 1"
    by auto
  with a b c second_estimate_tiny show ?thesis by simp
qed

text \<open>
  C4. When there is at least one corner sample, the background estimate is, for red, green
  and blue separately, the floor of the sum of the channel over the collected samples
  divided by their number. For a 1\<times>1 image and a sample size \<open>\<ge> 1\<close> the estimate is the
  colour of the only pixel, and with tolerance 0 this pixel is removed.
\<close>

theorem estimate_is_floor_mean:
  "(all_bg_colors img n = Inr cols \<and> cols \<noteq> [] \<longrightarrow>
      average_color cols = Inr (mean_color cols) \<and>
      background_estimate img n = Inr (Some (mean_color cols))) \<and>
   (width img = 1 \<and> height img = 1 \<and> 1 \<le> n \<longrightarrow>
      background_estimate img n = Inr (Some (rgb_of (pix img (0, 0)))) \<and>
      pixel_of (result_image img 0 n) (0, 0) = Inr (0, 0, 0, 0))"
proof (intro conjI impI)
  assume a: "all_bg_colors img n = Inr cols \<and> cols \<noteq> []"
  then show "average_color cols = Inr (mean_color cols)"
    by (simp add: average_color_mean)
  from a show "background_estimate img n = Inr (Some (mean_color cols))"
    by (simp add: background_estimate_def average_color_mean)
next
  assume a: "width img = 1 \<and> height img = 1 \<and> 1 \<le> n"
  then show "background_estimate img n = Inr (Some (rgb_of (pix img (0, 0))))"
    by (intro single_pixel) simp_all
  from a show "pixel_of (result_image img 0 n) (0, 0) = Inr (0, 0, 0, 0)"
    by (intro single_pixel) simp_all
qed

theorem estimate_is_floor_mean_witness:
  "all_bg_colors tiny 1 = Inr [(50, 0, 0), (250, 0, 0), (200, 0, 0), (200, 0, 0)] \<and>
   background_estimate tiny 1 = Inr (Some (175, 0, 0)) \<and>
   background_estimate dot 10 = Inr (Some (12, 34, 56)) \<and>
   pixel_of (result_image dot 0 10) (0, 0) = Inr (0, 0, 0, 0)"
proof -
  have s: "all_bg_colors tiny 1 = Inr [(50, 0, 0), (250, 0, 0), (200, 0, 0), (200, 0, 0)]"
    by (simp add: sampling_defs tiny_def)
  have m: "mean_color [(50, 0, 0), (250, 0, 0), (200, 0, 0), (200, 0, 0)] = (175, 0, 0)"
    by (simp add: mean_color_def)
  have d: "width dot = 1 \<and> height dot = 1 \<and> (1::int) \<le> 10"
    by (simp add: dot_def)
  from estimate_is_floor_mean [of tiny 1 "[(50, 0, 0), (250, 0, 0), (200, 0, 0), (200, 0, 0)]"]
    s m
  have t: "background_estimate tiny 1 = Inr (Some (175, 0, 0))" by simp
  from estimate_is_floor_mean [of dot 10 "[]"] d
  have "background_estimate dot 10 = Inr (Some (rgb_of (pix dot (0, 0)))) \<and>
      pixel_of (result_image dot 0 10) (0, 0) = Inr (0, 0, 0, 0)"
    by simp
  with s t show ?thesis by (simp add: dot_def rgb_of_def)
qed

text \<open>
  C6. For every image, corner and sample size, also one larger than the image, sampling a
  corner window raises no error and returns the colours of exactly the pixels of the
  window that lie in the grid, each once, in the order of the two loops; every sampled
  coordinate is in the grid, and the background estimate is the mean of these colours.
\<close>

theorem corner_windows_clipped:
  "sample_corner_region img sx sy sz =
     Inr (map (\<lambda>c. rgb_of (pix img c)) (filter (in_bounds img) (window_coords sx sy sz))) \<and>
   distinct (window_coords sx sy sz) \<and>
   set (filter (in_bounds img) (window_coords sx sy sz)) =
     ({sx..<sx + sz} \<times> {sy..<sy + sz}) \<inter> grid img \<and>
   all_bg_colors img n = Inr (map (\<lambda>c. rgb_of (pix img c)) (sampled_coords img n)) \<and>
   (\<forall>c \<in> set (sampled_coords img n). in_bounds img c) \<and>
   background_estimate img n =
     Inr (if sampled_coords img n = [] then None
          else Some (mean_color (map (\<lambda>c. rgb_of (pix img c)) (sampled_coords img n))))"
proof (intro conjI)
  show "sample_corner_region img sx sy sz =
     Inr (map (\<lambda>c. rgb_of (pix img c)) (filter (in_bounds img) (window_coords sx sy sz)))"
    by (rule sample_corner_region_eq)
  show "distinct (window_coords sx sy sz)" by (rule distinct_window_coords)
  show "set (filter (in_bounds img) (window_coords sx sy sz)) =
     ({sx..<sx + sz} \<times> {sy..<sy + sz}) \<inter> grid img"
    by (auto simp: set_window_coords in_bounds_grid)
  show "all_bg_colors img n = Inr (map (\<lambda>c. rgb_of (pix img c)) (sampled_coords img n))"
    by (rule all_bg_colors_eq)
  show "\<forall>c \<in> set (sampled_coords img n). in_bounds img c"
    using sampled_coords_in_bounds by blast
  show "background_estimate img n =
     Inr (if sampled_coords img n = [] then None
          else Some (mean_color (map (\<lambda>c. rgb_of (pix img c)) (sampled_coords img n))))"
    by (rule background_estimate_eq)
qed

theorem corner_windows_clipped_witness:
  "sample_corner_region bar3 1 (- 1) 2 = Inr [(90, 0, 0), (30, 0, 0)] \<and>
   all_bg_colors bar3 2 =
     Inr [(30, 0, 0), (90, 0, 0), (90, 0, 0), (30, 0, 0),
          (30, 0, 0), (90, 0, 0), (90, 0, 0), (30, 0, 0)] \<and>
   background_estimate bar3 2 = Inr (Some (60, 0, 0))"
proof -
  have w: "filter (in_bounds bar3) (window_coords 1 (- 1) 2) = [(1, 0), (2, 0)]"
    by (simp add: window_coords_def py_range_def in_bounds_def upto.simps bar3_def)
  have m: "mean_color [(30, 0, 0), (90, 0, 0), (90, 0, 0), (30, 0, 0),
          (30, 0, 0), (90, 0, 0), (90, 0, 0), (30, 0, 0)] = (60, 0, 0)"
    by (simp add: mean_color_def)
  from corner_windows_clipped [of bar3 1 "- 1" 2 2] show ?thesis
    by (simp add: w sampled_bar3 m) (simp add: bar3_def rgb_of_def m)
qed

text \<open>
  C9. The corner samples are a list with multiplicity: a pixel of the grid occurs in it
  once for every corner window that contains it, the number of samples is the sum of
  these counts, and the background estimate is the mean weighted by them. In a non-empty
  image narrower or lower than twice the sample size some pixel lies in two windows or
  more; in an image at least twice the sample size wide and high no pixel does.
\<close>

theorem samples_keep_multiplicity:
  "all_bg_colors img n = Inr (map (\<lambda>c. rgb_of (pix img c)) (sampled_coords img n)) \<and>
   (\<forall>c. count_list (sampled_coords img n) c = (if in_bounds img c then weight img n c else 0)) \<and>
   int (length (sampled_coords img n)) = (\<Sum>c \<in> grid img. int (weight img n c)) \<and>
   (sampled_coords img n \<noteq> [] \<longrightarrow>
      background_estimate img n =
        Inr (Some (weighted_mean img n (\<lambda>(r, g, b). r),
                   weighted_mean img n (\<lambda>(r, g, b). g),
                   weighted_mean img n (\<lambda>(r, g, b). b)))) \<and>
   (0 < width img \<and> 0 < height img \<and> 1 \<le> n \<and>
    (int (width img) < 2 * n \<or> int (height img) < 2 * n) \<longrightarrow>
      (\<exists>c. in_bounds img c \<and> 2 \<le> weight img n c)) \<and>
   (2 * n \<le> int (width img) \<and> 2 * n \<le> int (height img) \<longrightarrow>
      (\<forall>c. weight img n c \<le> 1))"
proof (intro conjI)
  show "all_bg_colors img n = Inr (map (\<lambda>c. rgb_of (pix img c)) (sampled_coords img n))"
    by (rule all_bg_colors_eq)
  show "\<forall>c. count_list (sampled_coords img n) c =
          (if in_bounds img c then weight img n c else 0)"
    by (intro allI) (rule count_sampled)
  show "int (length (sampled_coords img n)) = (\<Sum>c \<in> grid img. int (weight img n c))"
    by (rule sampled_sums)
  show "sampled_coords img n \<noteq> [] \<longrightarrow>
      background_estimate img n =
        Inr (Some (weighted_mean img n (\<lambda>(r, g, b). r),
                   weighted_mean img n (\<lambda>(r, g, b). g),
                   weighted_mean img n (\<lambda>(r, g, b). b)))"
    by (simp add: background_estimate_eq mean_color_weighted)
  show "0 < width img \<and> 0 < height img \<and> 1 \<le> n \<and>
    (int (width img) < 2 * n \<or> int (height img) < 2 * n) \<longrightarrow>
      (\<exists>c. in_bounds img c \<and> 2 \<le> weight img n c)"
  proof (intro impI, elim conjE)
    assume "0 < width img" "0 < height img" "1 \<le> n"
      "int (width img) < 2 * n \<or> int (height img) < 2 * n"
    then show "\<exists>c. in_bounds img c \<and> 2 \<le> weight img n c" by (rule weight_overlap)
  qed
  show "2 * n \<le> int (width img) \<and> 2 * n \<le> int (height img) \<longrightarrow>
      (\<forall>c. weight img n c \<le> 1)"
  proof (intro impI allI, elim conjE)
    fix c
    assume "2 * n \<le> int (width img)" "2 * n \<le> int (height img)"
    then show "weight img n c \<le> 1" by (rule weight_disjoint)
  qed
qed

theorem samples_keep_multiplicity_witness:
  "weight bar3 2 (0, 0) = 2 \<and> weight bar3 2 (1, 0) = 4 \<and> weight bar3 2 (2, 0) = 2 \<and>
   count_list (sampled_coords bar3 2) (1, 0) = 4 \<and>
   length (sampled_coords bar3 2) = 8 \<and>
   weighted_mean bar3 2 (\<lambda>(r, g, b). r) = 60 \<and>
   background_estimate bar3 2 = Inr (Some (60, 0, 0))"
proof -
  have ne: "sampled_coords bar3 2 \<noteq> []" by (simp add: sampled_bar3)
  have w: "weight bar3 2 (0, 0) = 2" "weight bar3 2 (1, 0) = 4" "weight bar3 2 (2, 0) = 2"
    by (simp_all add: weight_def corner_regions_def in_window_def bar3_def)
  have m: "mean_color [(30, 0, 0), (90, 0, 0), (90, 0, 0), (30, 0, 0),
          (30, 0, 0), (90, 0, 0), (90, 0, 0), (30, 0, 0)] = (60, 0, 0)"
    by (simp add: mean_color_def)
  have e: "background_estimate bar3 2 = Inr (Some (60, 0, 0))"
    by (simp add: background_estimate_eq sampled_bar3) (simp add: bar3_def rgb_of_def m)
  from samples_keep_multiplicity [of bar3 2] ne e w show ?thesis
    by (simp add: sampled_bar3)
qed

text \<open>
  C8. For a 4\<times>4 image with a magenta border frame around a 2\<times>2 centre whose pixels
  are each farther than 10 from magenta, the run with sample size 1 and tolerance 10
  removes exactly the 12 border pixels and leaves the four centre pixels as they were.

  That the centre is not magenta is not enough: a centre pixel \<open>(255, 1, 255)\<close> is within
  the tolerance of the estimate, is reached from the border, and is removed.
\<close>

theorem magenta_frame_removed:
  assumes "magenta_frame img"
    and "\<forall>c. in_bounds img c \<and> \<not> on_border img c \<longrightarrow> \<not> matches img (255, 0, 255) 10 c"
  shows "removal_set img 10 1 = Inr {c. on_border img c} \<and>
         card {c. on_border img c} = 12 \<and>
         (\<exists>out. result_image img 10 1 = Inr out \<and>
            (\<forall>c. on_border img c \<longrightarrow> pix out c = (0, 0, 0, 0)) \<and>
            (\<forall>c. \<not> on_border img c \<longrightarrow> pix out c = pix img c))"
proof (intro conjI)
  show "removal_set img 10 1 = Inr {c. on_border img c}"
    using assms by (rule frame_run)
  from assms(1) show "card {c. on_border img c} = 12"
    by (intro frame_border_card) (simp_all add: magenta_frame_def)
  show "\<exists>out. result_image img 10 1 = Inr out \<and>
            (\<forall>c. on_border img c \<longrightarrow> pix out c = (0, 0, 0, 0)) \<and>
            (\<forall>c. \<not> on_border img c \<longrightarrow> pix out c = pix img c)"
    by (simp add: frame_run(2) [OF assms] cleared_def)
qed

theorem magenta_frame_removed_witness:
  "magenta_frame frame4 \<and>
   removal_set frame4 10 1 = Inr {c. on_border frame4 c} \<and>
   pixel_of (result_image frame4 10 1) (3, 2) = Inr (0, 0, 0, 0) \<and>
   pixel_of (result_image frame4 10 1) (1, 2) = Inr (10, 200, 30, 128)"
proof -
  have far: "\<forall>c. in_bounds frame4 c \<and> \<not> on_border frame4 c \<longrightarrow>
      \<not> matches frame4 (255, 0, 255) 10 c"
    by (auto simp: on_border_def in_bounds_def frame4_def matches_def rgb_of_def
          color_distance_le_numeral)
  have b: "on_border frame4 (3, 2)" "\<not> on_border frame4 (1, 2)"
    by (simp_all add: on_border_def in_bounds_def frame4_def)
  from magenta_frame_removed [OF magenta_frame_frame4 far] obtain out
    where s: "removal_set frame4 10 1 = Inr {c. on_border frame4 c}"
      and o: "result_image frame4 10 1 = Inr out"
      and z: "\<forall>c. on_border frame4 c \<longrightarrow> pix out c = (0, 0, 0, 0)"
      and k: "\<forall>c. \<not> on_border frame4 c \<longrightarrow> pix out c = pix frame4 c"
    by blast
  from z [rule_format, OF b(1)] k [rule_format, OF b(2)]
  have "pix out (3, 2) = (0, 0, 0, 0)" "pix out (1, 2) = (10, 200, 30, 128)"
    by (simp_all add: frame4_def)
  with s o magenta_frame_frame4 show ?thesis by (simp add: pixel_of_def)
qed

theorem magenta_frame_counterexample:
  "magenta_frame near4 \<and>
   pix near4 (1, 1) = (255, 1, 255, 255) \<and>
   pixel_of (result_image near4 10 1) (1, 1) = Inr (0, 0, 0, 0)"
proof -
  have e: "estimate near4 1 = (255, 0, 255)"
    by (rule frame_estimate [OF magenta_frame_near4])
  have ne: "sampled_coords near4 1 \<noteq> []"
    by (rule frame_estimate [OF magenta_frame_near4])
  have "on_border near4 (1, 0)" by (simp add: on_border_def in_bounds_def near4_def)
  moreover have "matches near4 (255, 0, 255) 10 (1, 0)"
    by (simp add: matches_def rgb_of_def near4_def color_distance_le_numeral)
  ultimately have "reachable near4 (255, 0, 255) 10 (1, 0)" by (rule reachable.seed)
  moreover have "(1, 1) \<in> set (neighbours (1, 0))" by (simp add: neighbours_def)
  moreover have "in_bounds near4 (1, 1)" by (simp add: in_bounds_def near4_def)
  moreover have "matches near4 (255, 0, 255) 10 (1, 1)"
    by (simp add: matches_def rgb_of_def near4_def color_distance_le_numeral)
  ultimately have "reachable near4 (255, 0, 255) 10 (1, 1)" by (rule reachable.step)
  then have "pixel_of (result_image near4 10 1) (1, 1) = Inr (0, 0, 0, 0)"
    by (simp add: run_nonempty(3) [OF ne] e pixel_of_def cleared_def)
  moreover have "pix near4 (1, 1) = (255, 1, 255, 255)" by (simp add: near4_def)
  ultimately show ?thesis using magenta_frame_near4 by simp
qed






end
